theory Spec2Isabelle
  imports Main
begin

section \<open>Text\<close>

text \<open>
  A Python \<open>str\<close> is a sequence of code points. The model takes the code points below
  256, one \<open>char\<close> each, so \<open>CHR 0xE9\<close> is the letter U+00E9. The two character
  classes below are Python's \<open>str.isspace\<close> (which is also the class \<open>\s\<close> of \<open>re\<close> on
  \<open>str\<close> patterns) and the class \<open>\w\<close> (alphanumeric or underscore) on that range.
\<close>

definition NL :: char where
  "NL = CHR 0x0A"

definition is_space :: "char \<Rightarrow> bool" where
  "is_space c = (let n = (of_char c :: nat) in
     (9 \<le> n \<and> n \<le> 13) \<or> (28 \<le> n \<and> n \<le> 32) \<or> n = 133 \<or> n = 160)"

definition is_word :: "char \<Rightarrow> bool" where
  "is_word c = (let n = (of_char c :: nat) in
     (48 \<le> n \<and> n \<le> 57) \<or> (65 \<le> n \<and> n \<le> 90) \<or> n = 95 \<or> (97 \<le> n \<and> n \<le> 122)
     \<or> n = 170 \<or> n = 178 \<or> n = 179 \<or> n = 181 \<or> n = 185 \<or> n = 186
     \<or> (188 \<le> n \<and> n \<le> 190) \<or> (192 \<le> n \<and> n \<le> 214) \<or> (216 \<le> n \<and> n \<le> 246)
     \<or> 248 \<le> n)"

definition is_ascii_word :: "char \<Rightarrow> bool" where
  \<comment> \<open>the class \<open>[A-Za-z0-9_]\<close>\<close>
  "is_ascii_word c = (let n = (of_char c :: nat) in
     (48 \<le> n \<and> n \<le> 57) \<or> (65 \<le> n \<and> n \<le> 90) \<or> n = 95 \<or> (97 \<le> n \<and> n \<le> 122))"

definition strip :: "string \<Rightarrow> string" where
  \<comment> \<open>\<open>str.strip()\<close>\<close>
  "strip s = rev (dropWhile is_space (rev (dropWhile is_space s)))"

definition startswith :: "string \<Rightarrow> string \<Rightarrow> bool" where
  \<comment> \<open>\<open>s.startswith(p)\<close>\<close>
  "startswith s p = (take (length p) s = p)"

fun join :: "string \<Rightarrow> string list \<Rightarrow> string" where
  \<comment> \<open>\<open>sep.join(xs)\<close>\<close>
  "join sep [] = []"
| "join sep [x] = x"
| "join sep (x # y # ys) = x @ sep @ join sep (y # ys)"

section \<open>Regular expressions, as \<open>re\<close> matches them\<close>

text \<open>
  The patterns of the program use literals, the classes \<open>\s\<close>, \<open>\w\<close> and (under DOTALL)
  \<open>.\<close>, the anchor \<open>^\<close> under MULTILINE, greedy and lazy repetition of a class,
  sequence and alternation. The matcher is a backtracking one with \<open>re\<close>'s priorities:
  the left alternative first, a greedy repetition longest first, a lazy one shortest
  first. Its state is the rest of the text and a flag saying whether the position is the
  start of the text or follows a newline, which is where \<open>^\<close> matches.
\<close>

datatype cls = Space | Word | Any

fun in_cls :: "cls \<Rightarrow> char \<Rightarrow> bool" where
  "in_cls Space c = is_space c"
| "in_cls Word c = is_word c"
| "in_cls Any c = True"

datatype rx =
    Eps
  | Lit char
  | Bol
  | Star cls
  | Lazy cls
  | Plus cls
  | Seq rx rx
  | Alt rx rx

fun greedy :: "cls \<Rightarrow> bool \<Rightarrow> string \<Rightarrow> (bool \<Rightarrow> string \<Rightarrow> 'a option) \<Rightarrow> 'a option" where
  "greedy k b [] cont = cont b []"
| "greedy k b (c # cs) cont =
     (if in_cls k c
      then (case greedy k (c = NL) cs cont of Some r \<Rightarrow> Some r | None \<Rightarrow> cont b (c # cs))
      else cont b (c # cs))"

fun lazy :: "cls \<Rightarrow> bool \<Rightarrow> string \<Rightarrow> (bool \<Rightarrow> string \<Rightarrow> 'a option) \<Rightarrow> 'a option" where
  "lazy k b [] cont = cont b []"
| "lazy k b (c # cs) cont =
     (case cont b (c # cs) of
        Some r \<Rightarrow> Some r
      | None \<Rightarrow> if in_cls k c then lazy k (c = NL) cs cont else None)"

fun rmatch :: "rx \<Rightarrow> bool \<Rightarrow> string \<Rightarrow> (bool \<Rightarrow> string \<Rightarrow> 'a option) \<Rightarrow> 'a option" where
  "rmatch Eps b s cont = cont b s"
| "rmatch (Lit x) b s cont =
     (case s of [] \<Rightarrow> None | c # cs \<Rightarrow> if c = x then cont (c = NL) cs else None)"
| "rmatch Bol b s cont = (if b then cont b s else None)"
| "rmatch (Star k) b s cont = greedy k b s cont"
| "rmatch (Lazy k) b s cont = lazy k b s cont"
| "rmatch (Plus k) b s cont =
     (case s of [] \<Rightarrow> None | c # cs \<Rightarrow> if in_cls k c then greedy k (c = NL) cs cont else None)"
| "rmatch (Seq p q) b s cont = rmatch p b s (\<lambda>b' s'. rmatch q b' s' cont)"
| "rmatch (Alt p q) b s cont =
     (case rmatch p b s cont of Some r \<Rightarrow> Some r | None \<Rightarrow> rmatch q b s cont)"

fun min_len :: "rx \<Rightarrow> nat" where
  \<comment> \<open>a lower bound on the length of the text a pattern matches\<close>
  "min_len Eps = 0"
| "min_len (Lit x) = 1"
| "min_len Bol = 0"
| "min_len (Star k) = 0"
| "min_len (Lazy k) = 0"
| "min_len (Plus k) = 1"
| "min_len (Seq p q) = min_len p + min_len q"
| "min_len (Alt p q) = min (min_len p) (min_len q)"

definition match_at :: "rx \<Rightarrow> bool \<Rightarrow> string \<Rightarrow> (bool \<times> string) option" where
  \<comment> \<open>the match that starts at this position, if any: the state after it\<close>
  "match_at r b s = rmatch r b s (\<lambda>b' s'. Some (b', s'))"

definition nonempty_match :: "rx \<Rightarrow> bool \<Rightarrow> string \<Rightarrow> (bool \<times> string) option" where
  \<comment> \<open>no pattern of the program matches the empty string (\<open>nonempty_match_patterns\<close> below);
      the test makes the scan below terminate for every pattern\<close>
  "nonempty_match r b s =
     (case match_at r b s of
        None \<Rightarrow> None
      | Some (b', s') \<Rightarrow> if length s' < length s then Some (b', s') else None)"

text \<open>
  \<open>re.split\<close> and \<open>re.sub\<close> both walk the non-overlapping matches from left to right,
  each search starting where the last match ended; \<open>pieces\<close> returns the stretches of
  text between the matches (\<open>acc\<close> is the stretch being collected, reversed).
\<close>

function pieces :: "rx \<Rightarrow> bool \<Rightarrow> string \<Rightarrow> string \<Rightarrow> string list" where
  "pieces r b s acc =
     (case nonempty_match r b s of
        Some (b', s') \<Rightarrow> rev acc # pieces r b' s' []
      | None \<Rightarrow> (case s of [] \<Rightarrow> [rev acc] | c # cs \<Rightarrow> pieces r (c = NL) cs (c # acc)))"
  by pat_completeness auto
termination
  by (relation "measure (\<lambda>(r, b, s, acc). length s)")
     (auto simp: nonempty_match_def split: option.splits if_splits)

declare pieces.simps [simp del]

definition re_split :: "rx \<Rightarrow> string \<Rightarrow> string list" where
  \<comment> \<open>\<open>re.split(r, s)\<close> for a pattern without groups\<close>
  "re_split r s = pieces r True s []"

definition re_sub_empty :: "rx \<Rightarrow> string \<Rightarrow> string" where
  \<comment> \<open>\<open>re.sub(r, '', s)\<close>\<close>
  "re_sub_empty r s = concat (pieces r True s [])"

fun re_search :: "rx \<Rightarrow> bool \<Rightarrow> string \<Rightarrow> string option" where
  \<comment> \<open>\<open>re.search(r, s)\<close>: the text of the leftmost match\<close>
  "re_search r b [] =
     (case match_at r b [] of None \<Rightarrow> None | Some (b', s') \<Rightarrow> Some [])"
| "re_search r b (c # cs) =
     (case match_at r b (c # cs) of
        Some (b', s') \<Rightarrow> Some (take (length (c # cs) - length s') (c # cs))
      | None \<Rightarrow> re_search r (c = NL) cs)"

definition seqs :: "rx list \<Rightarrow> rx" where
  "seqs rs = foldr Seq rs Eps"

definition str :: "string \<Rightarrow> rx" where
  \<comment> \<open>a literal string\<close>
  "str s = seqs (map Lit s)"

section \<open>The document parser\<close>

definition split_re :: rx where
  \<comment> \<open>\<^verbatim>\<open>^(?:---\s*\n|\s*```)\<close> with MULTILINE\<close>
  "split_re = Seq Bol (Alt (seqs [str ''---'', Star Space, Lit NL]) (seqs [Star Space, str ''```'']))"

definition front_matter_re :: rx where
  \<comment> \<open>\<^verbatim>\<open>^\s*---\s*.*?^\s*---\s*\<close> with MULTILINE and DOTALL\<close>
  "front_matter_re =
     seqs [Bol, Star Space, str ''---'', Star Space, Lazy Any, Bol, Star Space, str ''---'', Star Space]"

definition fence_re :: rx where
  \<comment> \<open>\<^verbatim>\<open>^\s*```.*?^\s*```\s*\<close> with MULTILINE and DOTALL\<close>
  "fence_re =
     seqs [Bol, Star Space, str ''```'', Lazy Any, Bol, Star Space, str ''```'', Star Space]"

definition name_re :: rx where
  \<comment> \<open>\<^verbatim>\<open>name=(\w+)\<close>; group 1 is the match without its first five characters\<close>
  "name_re = seqs [str ''name='', Plus Word]"

datatype stray = NonBlockProse | NonBashFence

datatype error =
    MissingFrontMatter
  | StrayContent stray
  | YamlParseError string
  | IncompleteBashBlock
  | MissingBlockName
  | DuplicateBlockName string
  | NoExecutableBlocks

text \<open>
  The errors are the places where \<open>parse_markdown\<close> prints a diagnostic and calls
  \<open>sys.exit(1)\<close>, in the order of the source: line 46 (\<open>MissingFrontMatter\<close>), line 61
  (\<open>StrayContent NonBlockProse\<close>), line 68 (\<open>YamlParseError\<close>, with the text of the
  exception), line 86 (\<open>IncompleteBashBlock\<close>), line 94 (\<open>MissingBlockName\<close>), line 99
  (\<open>DuplicateBlockName\<close>), line 108 (\<open>StrayContent NonBashFence\<close>) and line 113
  (\<open>NoExecutableBlocks\<close>).
\<close>

definition group1 :: "string \<Rightarrow> string" where
  \<comment> \<open>\<open>name_match.group(1)\<close> of a match of \<open>name_re\<close>\<close>
  "group1 m = drop 5 m"

text \<open>
  The \<open>while\<close> loop over \<open>parts\<close>, from index \<open>i\<close>, with the set of names seen and the
  list of bodies collected so far; it returns both at the end.
\<close>

function walk ::
  "string list \<Rightarrow> nat \<Rightarrow> string set \<Rightarrow> string list \<Rightarrow> error + (string set \<times> string list)" where
  "walk parts i block_names bash_blocks =
     (if i < length parts then
        if startswith (strip (parts ! i)) ''yaml'' then
          walk parts (i + 2) block_names bash_blocks
        else if startswith (strip (parts ! i)) ''bash'' then
          (let header = strip (parts ! i) in
           if i + 1 \<ge> length parts then Inl IncompleteBashBlock
           else
             let bash_content = strip (parts ! (i + 1)) in
             case re_search name_re True header of
               None \<Rightarrow> Inl MissingBlockName
             | Some name_match \<Rightarrow>
                 let block_name = group1 name_match in
                 if block_name \<in> block_names then Inl (DuplicateBlockName block_name)
                 else walk parts (i + 2) (insert block_name block_names)
                        (bash_blocks @ [bash_content]))
        else if strip (parts ! i) \<noteq> [] then Inl (StrayContent NonBashFence)
        else walk parts (i + 1) block_names bash_blocks
      else Inr (block_names, bash_blocks))"
  by pat_completeness auto
termination
  by (relation "measure (\<lambda>(parts, i, block_names, bash_blocks). length parts - i)") auto

declare walk.simps [simp del]

definition prose_check :: "string \<Rightarrow> string" where
  \<comment> \<open>lines 53 and 57: the text without the front-matter block and the fenced blocks\<close>
  "prose_check content = re_sub_empty fence_re (re_sub_empty front_matter_re content)"

definition parse_markdown_locals ::
  "(string \<Rightarrow> string + 'y) \<Rightarrow> string \<Rightarrow> error + ('y \<times> string set \<times> string list)" where
  \<comment> \<open>\<open>parse_markdown\<close> from line 40 on, on the text read from the file:
      \<open>front_matter\<close>, \<open>block_names\<close> and \<open>bash_blocks\<close> as they are at the \<open>return\<close>;
      \<open>yaml_safe_load\<close> is \<open>yaml.safe_load\<close>, \<open>Inl\<close> the text of its \<open>YAMLError\<close>\<close>
  "parse_markdown_locals yaml_safe_load content =
     (let parts = re_split split_re content in
      if length parts < 3 \<or> strip (parts ! 1) = [] then Inl MissingFrontMatter
      else if strip (prose_check content) \<noteq> [] then Inl (StrayContent NonBlockProse)
      else
        case yaml_safe_load (parts ! 1) of
          Inl e \<Rightarrow> Inl (YamlParseError e)
        | Inr front_matter \<Rightarrow>
            (case walk parts 2 {} [] of
               Inl err \<Rightarrow> Inl err
             | Inr (block_names, bash_blocks) \<Rightarrow>
                 if bash_blocks = [] then Inl NoExecutableBlocks
                 else Inr (front_matter, block_names, bash_blocks)))"

definition parse_markdown_text ::
  "(string \<Rightarrow> string + 'y) \<Rightarrow> string \<Rightarrow> error + ('y \<times> string list)" where
  \<comment> \<open>what \<open>parse_markdown\<close> returns: \<open>front_matter, bash_blocks\<close>\<close>
  "parse_markdown_text yaml_safe_load content =
     (case parse_markdown_locals yaml_safe_load content of
        Inl err \<Rightarrow> Inl err
      | Inr (front_matter, block_names, bash_blocks) \<Rightarrow> Inr (front_matter, bash_blocks))"

section \<open>Paths\<close>

text \<open>
  \<open>pathlib\<close> on POSIX: a path is its root (\<open>/\<close>, \<open>//\<close> or none) and its components,
  with empty components and \<open>.\<close> dropped.
\<close>

record path =
  root :: string
  segs :: "string list"

fun split_on :: "char \<Rightarrow> string \<Rightarrow> string list" where
  \<comment> \<open>\<open>s.split(d)\<close>\<close>
  "split_on d [] = [[]]"
| "split_on d (c # cs) =
     (if c = d then [] # split_on d cs
      else (case split_on d cs of [] \<Rightarrow> [[c]] | x # xs \<Rightarrow> (c # x) # xs))"

definition Path :: "string \<Rightarrow> path" where
  "Path s =
     \<lparr>root = (if startswith s ''//'' \<and> \<not> startswith s ''///'' then ''//''
              else if startswith s ''/'' then ''/'' else []),
      segs = filter (\<lambda>x. x \<noteq> [] \<and> x \<noteq> ''.'') (split_on (CHR ''/'') s)\<rparr>"

definition path_str :: "path \<Rightarrow> string" where
  \<comment> \<open>\<open>str(p)\<close>, also what an f-string prints\<close>
  "path_str p = (if root p = [] \<and> segs p = [] then ''.'' else root p @ join ''/'' (segs p))"

definition truediv :: "path \<Rightarrow> string \<Rightarrow> path" where
  \<comment> \<open>\<open>p / s\<close>\<close>
  "truediv p s = (if root (Path s) \<noteq> [] then Path s else p\<lparr>segs := segs p @ segs (Path s)\<rparr>)"

definition path_name :: "path \<Rightarrow> string" where
  \<comment> \<open>\<open>p.name\<close>\<close>
  "path_name p = (if segs p = [] then [] else last (segs p))"

definition TEMP_DIR :: path where
  "TEMP_DIR = Path ''.out/tmp''"

definition LOG_DIR :: path where
  "LOG_DIR = Path ''.out/logs''"

section \<open>Effects\<close>

text \<open>
  What the program does to the world is recorded as a list of events, in order; an
  event is a call, made whether or not the operating system carries it out. A
  computation returns its events and either a value or the way it stopped:
  \<open>sys.exit(n)\<close>, or an exception nobody catches.
\<close>

datatype event =
    Print string
  | ReadText string
  | WriteText string string
  | Chmod string nat
  | Mkdir string
  | OpenWrite string
  | Exec "string list"
  | Exists string
  | Unlink string

datatype abort = SysExit int | Uncaught

type_synonym 'a io = "event list \<times> (abort + 'a)"

definition and_then :: "'a io \<Rightarrow> ('a \<Rightarrow> 'b io) \<Rightarrow> 'b io" where
  "and_then m f =
     (case m of
        (evs, Inl a) \<Rightarrow> (evs, Inl a)
      | (evs, Inr x) \<Rightarrow> (case f x of (evs', r) \<Rightarrow> (evs @ evs', r)))"

definition emit :: "event list \<Rightarrow> unit io" where
  "emit evs = (evs, Inr ())"

definition fail_with :: "string \<Rightarrow> int \<Rightarrow> 'a io" where
  \<comment> \<open>\<open>print(msg); sys.exit(n)\<close>\<close>
  "fail_with msg n = ([Print msg], Inl (SysExit n))"

definition quote :: string where
  "quote = [CHR 0x27]"

fun show_nat :: "nat \<Rightarrow> string" where
  "show_nat n =
     (if n < 10 then [char_of (48 + n)] else show_nat (n div 10) @ [char_of (48 + n mod 10)])"

declare show_nat.simps [simp del]

definition show_int :: "int \<Rightarrow> string" where
  \<comment> \<open>\<open>str(n)\<close>\<close>
  "show_int n = (if n < 0 then ''-'' @ show_nat (nat (- n)) else show_nat (nat n))"

text \<open>
  What the program meets outside: the text of the files, \<open>yaml.safe_load\<close>,
  \<open>jsonschema.validate\<close> (\<open>Some\<close> the text of its exception), the entries of the loaded
  front matter (\<open>None\<close> where the lookup raises), the working directory, the outcome of
  \<open>subprocess.run\<close> (the command is not found, it cannot be started for another
  reason, or it ends with an exit code), which paths exist once the container has run,
  and which calls on files the operating system refuses: \<open>raises\<close> gives the \<open>OSError\<close>
  of a call, told apart as far as the program does. \<open>Path.exists\<close> answers \<open>False\<close> for a
  path that is not there and raises the other errors of the operating system (a name too
  long, a directory that may not be searched). Printing is taken never to raise.
\<close>

datatype proc = CommandNotFound | LaunchError | Completed int

datatype os_error = FileNotFoundError | OtherOSError

record ('y, 's) env =
  read_text :: "string \<Rightarrow> string"
  yaml_safe_load :: "string \<Rightarrow> string + 'y"
  validate :: "'y \<Rightarrow> 's \<Rightarrow> string option"
  get_str :: "'y \<Rightarrow> string \<Rightarrow> string option"
  get_list :: "'y \<Rightarrow> string \<Rightarrow> string list option"
  cwd :: path
  subprocess_run :: "string list \<Rightarrow> proc"
  path_exists :: "string \<Rightarrow> bool"
  raises :: "event \<Rightarrow> os_error option"

definition attempt :: "('y, 's) env \<Rightarrow> event \<Rightarrow> unit io" where
  \<comment> \<open>a call on a file outside any \<open>try\<close>: its exception is not caught\<close>
  "attempt env e = ([e], case raises env e of None \<Rightarrow> Inr () | Some x \<Rightarrow> Inl Uncaught)"

definition message :: "path \<Rightarrow> error \<Rightarrow> string" where
  \<comment> \<open>the diagnostics of \<open>parse_markdown\<close>\<close>
  "message file_path err =
     (case err of
        MissingFrontMatter \<Rightarrow> ''Error: Missing YAML front-matter in '' @ path_str file_path
      | StrayContent NonBlockProse \<Rightarrow>
          ''Validation Error: Found non-block prose in '' @ path_str file_path
          @ ''. Only YAML front-matter and fenced ```bash blocks are allowed.''
      | YamlParseError e \<Rightarrow> ''YAML Parsing Error in '' @ path_str file_path @ '': '' @ e
      | IncompleteBashBlock \<Rightarrow>
          ''Validation Error: Incomplete bash block in '' @ path_str file_path
      | MissingBlockName \<Rightarrow>
          ''Validation Error: Bash block missing '' @ quote @ ''name='' @ quote
          @ '' attribute in '' @ path_str file_path
      | DuplicateBlockName block_name \<Rightarrow>
          ''Validation Error: Duplicate bash block name '' @ quote @ block_name @ quote
          @ '' in '' @ path_str file_path
      | StrayContent NonBashFence \<Rightarrow>
          ''Validation Error: Found non-bash code fence or unexpected content in ''
          @ path_str file_path
      | NoExecutableBlocks \<Rightarrow>
          ''Validation Error: No bash code blocks found in '' @ path_str file_path)"

definition parse_markdown :: "('y, 's) env \<Rightarrow> path \<Rightarrow> ('y \<times> string list) io" where
  "parse_markdown env file_path =
     and_then (attempt env (ReadText (path_str file_path))) (\<lambda>_.
       case parse_markdown_text (yaml_safe_load env) (read_text env (path_str file_path)) of
         Inl err \<Rightarrow> fail_with (message file_path err) 1
       | Inr r \<Rightarrow> ([], Inr r))"

definition validate_front_matter :: "('y, 's) env \<Rightarrow> 'y \<Rightarrow> 's \<Rightarrow> unit io" where
  "validate_front_matter env data schema =
     (case validate env data schema of
        Some e \<Rightarrow> fail_with (''Schema Validation Error: '' @ e) 1
      | None \<Rightarrow> ([], Inr ()))"

section \<open>The script compiler\<close>

definition script_content :: "string list \<Rightarrow> string list" where
  \<comment> \<open>lines 128 to 132: the list of lines and blocks that is joined\<close>
  "script_content bash_blocks =
     foldl (\<lambda>sc block. sc @ [block, ''''])
       [''#!/bin/bash'', ''set -euxo pipefail'', ''''] bash_blocks"

definition compile_script :: "('y, 's) env \<Rightarrow> string \<Rightarrow> string list \<Rightarrow> path io" where
  "compile_script env slash_name bash_blocks =
     (let compiled_script_path = truediv TEMP_DIR (slash_name @ ''.sh'') in
      and_then (attempt env (WriteText (path_str compiled_script_path)
                               (join [NL] (script_content bash_blocks)))) (\<lambda>_.
      and_then (attempt env (Chmod (path_str compiled_script_path) 493)) (\<lambda>_.
        ([], Inr compiled_script_path))))"

section \<open>The container runner\<close>

definition docker_cmd :: "path \<Rightarrow> string \<Rightarrow> path \<Rightarrow> string list" where
  "docker_cmd here image_ref compiled_script_path =
     [''docker'', ''run'', ''--rm'',
      ''-v'', path_str here @ '':/src:ro'',
      ''-v'', path_str (truediv here ''.out'') @ '':/out'',
      ''-w'', ''/src'',
      ''--entrypoint'', ''/bin/sh'',
      image_ref,
      ''/tmp/'' @ path_name compiled_script_path]"

fun verify_outputs ::
  "('y, 's) env \<Rightarrow> string list \<Rightarrow> bool \<Rightarrow> event list \<times> (os_error + bool)" where
  \<comment> \<open>the loop of lines 187 to 193, with the flag \<open>all_outputs_exist\<close>; \<open>Inl\<close> when
      \<open>Path(output).exists()\<close> raises, which ends the loop\<close>
  "verify_outputs env [] all_outputs_exist = ([], Inr all_outputs_exist)"
| "verify_outputs env (output # rest) all_outputs_exist =
     (case raises env (Exists output) of
        Some e \<Rightarrow> ([Exists output], Inl e)
      | None \<Rightarrow>
          if \<not> path_exists env output then
            (Exists output
             # Print (''Output Verification Failed: Declared output '' @ quote @ output @ quote
                      @ '' does not exist.'')
             # fst (verify_outputs env rest False),
             snd (verify_outputs env rest False))
          else
            (Exists output
             # Print (''Output Verified: '' @ quote @ output @ quote @ '' exists.'')
             # fst (verify_outputs env rest all_outputs_exist),
             snd (verify_outputs env rest all_outputs_exist)))"

definition docker_not_found :: "unit io" where
  \<comment> \<open>the handler of \<open>FileNotFoundError\<close>, lines 203 to 205\<close>
  "docker_not_found =
     fail_with (''Error: '' @ quote @ ''docker'' @ quote
                @ '' command not found. Is Docker installed and in your PATH?'') 1"

definition run_container ::
  "('y, 's) env \<Rightarrow> string list \<Rightarrow> path \<Rightarrow> string \<Rightarrow> string list \<Rightarrow> unit io" where
  \<comment> \<open>the body of the \<open>with\<close> statement and what follows it in the \<open>try\<close>, lines 175 to 205\<close>
  "run_container env cmd log_file slash_name outputs =
     (case subprocess_run env cmd of
        CommandNotFound \<Rightarrow> and_then (emit [Exec cmd]) (\<lambda>_. docker_not_found)
      | LaunchError \<Rightarrow> ([Exec cmd], Inl Uncaught)
      | Completed returncode \<Rightarrow>
          if returncode \<noteq> 0 then
            ([Exec cmd,
              Print (''Docker run failed for /'' @ slash_name @ ''. Exit code: ''
                     @ show_int returncode),
              Print (''Check logs at '' @ path_str log_file @ '' for details.'')],
             Inl (SysExit returncode))
          else
            (case verify_outputs env outputs True of
               (evs, Inl FileNotFoundError) \<Rightarrow>
                 and_then
                   (emit ([Exec cmd,
                           Print (''Docker run successful. Logs written to '' @ path_str log_file),
                           Print ''--- Verifying Outputs ---'']
                          @ evs))
                   (\<lambda>_. docker_not_found)
             | (evs, Inl OtherOSError) \<Rightarrow>
                 ([Exec cmd,
                   Print (''Docker run successful. Logs written to '' @ path_str log_file),
                   Print ''--- Verifying Outputs ---'']
                  @ evs,
                  Inl Uncaught)
             | (evs, Inr all_outputs_exist) \<Rightarrow>
                 if \<not> all_outputs_exist then
                   ([Exec cmd,
                     Print (''Docker run successful. Logs written to '' @ path_str log_file),
                     Print ''--- Verifying Outputs ---'']
                    @ evs
                    @ [Print (''Error: One or more declared outputs are missing for /''
                              @ slash_name @ ''.'')],
                    Inl (SysExit 1))
                 else
                   ([Exec cmd,
                     Print (''Docker run successful. Logs written to '' @ path_str log_file),
                     Print ''--- Verifying Outputs ---'']
                    @ evs,
                    Inr ())))"

definition run_docker ::
  "('y, 's) env \<Rightarrow> string \<Rightarrow> path \<Rightarrow> string \<Rightarrow> string list \<Rightarrow> unit io" where
  "run_docker env image_ref compiled_script_path slash_name outputs =
     (let cmd = docker_cmd (cwd env) image_ref compiled_script_path;
          log_file = truediv LOG_DIR (slash_name @ ''.log'')
      in
      and_then (emit [Print (''--- Running /'' @ slash_name @ '' in Docker ---'')]) (\<lambda>_.
      and_then (attempt env (Mkdir ''.out'')) (\<lambda>_.
      and_then (emit [OpenWrite (path_str log_file)]) (\<lambda>_.
        case raises env (OpenWrite (path_str log_file)) of
          Some FileNotFoundError \<Rightarrow> docker_not_found
        | Some OtherOSError \<Rightarrow> ([], Inl Uncaught)
        | None \<Rightarrow> run_container env cmd log_file slash_name outputs))))"

section \<open>Handling one file\<close>

definition lookup :: "'a option \<Rightarrow> 'a io" where
  \<comment> \<open>\<open>front_matter[key]\<close>: a failed lookup raises, and nothing catches it\<close>
  "lookup v = (case v of None \<Rightarrow> ([], Inl Uncaught) | Some x \<Rightarrow> ([], Inr x))"

definition handle_file :: "('y, 's) env \<Rightarrow> path \<Rightarrow> 's \<Rightarrow> string \<Rightarrow> unit io" where
  "handle_file env file_path schema mode =
     and_then (emit [Print (''Processing file: '' @ path_str file_path
                            @ '' (Mode: '' @ mode @ '')'')]) (\<lambda>_.
     and_then (parse_markdown env file_path) (\<lambda>(front_matter, bash_blocks).
     and_then (validate_front_matter env front_matter schema) (\<lambda>_.
       if mode = ''validate'' then
         emit [Print (''Validation successful for '' @ path_str file_path @ ''.'')]
       else
         and_then (lookup (get_str env front_matter ''slash'')) (\<lambda>slash_name.
         and_then (lookup (get_str env front_matter ''image'')) (\<lambda>image_ref.
         and_then (lookup (get_list env front_matter ''outputs'')) (\<lambda>outputs.
         and_then (compile_script env slash_name bash_blocks) (\<lambda>compiled_script_path.
         and_then (run_docker env image_ref compiled_script_path slash_name outputs) (\<lambda>_.
         and_then (attempt env (Unlink (path_str compiled_script_path))) (\<lambda>_.
           emit [Print (''Execution of /'' @ slash_name @ '' completed successfully.'')])))))))))"

definition reaches_container ::
  "('y, 's) env \<Rightarrow> path \<Rightarrow> string \<Rightarrow> string list \<Rightarrow> bool" where
  \<comment> \<open>the operating system carries out the five calls on files that come before the
      container is started\<close>
  "reaches_container env file_path slash_name bash_blocks \<longleftrightarrow>
     raises env (ReadText (path_str file_path)) = None
     \<and> raises env (WriteText (path_str (truediv TEMP_DIR (slash_name @ ''.sh'')))
                     (join [NL] (script_content bash_blocks))) = None
     \<and> raises env (Chmod (path_str (truediv TEMP_DIR (slash_name @ ''.sh''))) 493) = None
     \<and> raises env (Mkdir ''.out'') = None
     \<and> raises env (OpenWrite (path_str (truediv LOG_DIR (slash_name @ ''.log'')))) = None"

section \<open>An example world\<close>

text \<open>
  A document with two bash fences and a world in which everything before the container
  run succeeds; the outcome of the run and the paths that exist afterwards are left open.
  The loaded front matter is taken to be its own text.
\<close>

definition demo_text :: string where
  "demo_text =
     ''---\<newline>slash: foo\<newline>image: alpine:3\<newline>outputs: [a, b, c]\<newline>---\<newline>''
     @ ''```bash name=first\<newline>echo a\<newline>```\<newline>''
     @ ''```bash name=second\<newline>echo b\<newline>```\<newline>''"

definition demo_env :: "proc \<Rightarrow> (string \<Rightarrow> bool) \<Rightarrow> (string, unit) env" where
  "demo_env result ex =
     \<lparr>read_text = (\<lambda>_. demo_text),
      yaml_safe_load = Inr,
      validate = (\<lambda>_ _. None),
      get_str = (\<lambda>_ key. if key = ''slash'' then Some ''foo'' else Some ''alpine:3''),
      get_list = (\<lambda>_ _. Some [''a'', ''b'', ''c'']),
      cwd = Path ''/work'',
      subprocess_run = (\<lambda>_. result),
      path_exists = ex,
      raises = (\<lambda>_. None)\<rparr>"

definition refusing_env :: "(string, unit) env" where
  \<comment> \<open>the container has run and left \<open>b\<close> only; asking whether \<open>a\<close> exists raises\<close>
  "refusing_env =
     (demo_env (Completed 0) (\<lambda>p. p = ''b''))
       \<lparr>raises := (\<lambda>e. if e = Exists ''a'' then Some OtherOSError else None)\<rparr>"

definition is_print :: "event \<Rightarrow> bool" where
  "is_print e = (case e of Print _ \<Rightarrow> True | _ \<Rightarrow> False)"

definition is_exec :: "event \<Rightarrow> bool" where
  "is_exec e = (case e of Exec _ \<Rightarrow> True | _ \<Rightarrow> False)"

definition is_exists :: "event \<Rightarrow> bool" where
  "is_exists e = (case e of Exists _ \<Rightarrow> True | _ \<Rightarrow> False)"

definition is_write_text :: "event \<Rightarrow> bool" where
  "is_write_text e = (case e of WriteText _ _ \<Rightarrow> True | _ \<Rightarrow> False)"

section \<open>Documents of the expected shape\<close>

text \<open>
  To state what the parser does on whole families of documents, a document is built
  from its lines: a front-matter block between two \<open>---\<close> lines, then items, each a
  fenced block (the text after the opening fence on its line, and the lines inside) or
  a paragraph line. A line is \<open>plain\<close> when it cannot be taken for a marker: it is not
  empty and starts with neither white space, \<open>-\<close> nor a backtick.
\<close>

definition unlines :: "string list \<Rightarrow> string" where
  "unlines ls = concat (map (\<lambda>l. l @ [NL]) ls)"

definition plain :: "string \<Rightarrow> bool" where
  "plain l = (l \<noteq> [] \<and> NL \<notin> set l \<and> \<not> is_space (hd l)
              \<and> hd l \<noteq> CHR ''-'' \<and> hd l \<noteq> CHR 0x60)"

datatype item = Fence string "string list" | Para string

fun item_lines :: "item \<Rightarrow> string list" where
  "item_lines (Fence header body) = (''```'' @ header) # body @ [''```'']"
| "item_lines (Para l) = [l]"

definition render :: "string list \<Rightarrow> item list \<Rightarrow> string" where
  "render fm items = unlines (''---'' # fm @ ''---'' # concat (map item_lines items))"

fun wf_item :: "item \<Rightarrow> bool" where
  "wf_item (Fence header body) =
     (header \<noteq> [] \<and> NL \<notin> set header \<and> \<not> is_space (hd header) \<and> list_all plain body)"
| "wf_item (Para l) = plain l"

definition bash :: "string \<Rightarrow> string list \<Rightarrow> item" where
  \<comment> \<open>a bash fence with a \<open>name=\<close> attribute\<close>
  "bash name body = Fence (''bash name='' @ name) body"

definition word_name :: "string \<Rightarrow> bool" where
  "word_name n = (n \<noteq> [] \<and> list_all is_word n)"

definition solid :: "string \<Rightarrow> bool" where
  \<comment> \<open>a text that does not start with white space\<close>
  "solid t = (case t of [] \<Rightarrow> True | c # cs \<Rightarrow> \<not> is_space c)"

fun item_parts :: "item \<Rightarrow> string list" where
  \<comment> \<open>what \<open>re.split\<close> makes of a fenced block: its text from the opening fence to the
      closing one, and the newline after the closing fence\<close>
  "item_parts (Fence header body) = [header @ NL # unlines body, [NL]]"
| "item_parts (Para l) = []"

fun item_prose :: "item \<Rightarrow> string" where
  \<comment> \<open>the text of an item outside fenced blocks\<close>
  "item_prose (Fence header body) = []"
| "item_prose (Para l) = l @ [NL]"

definition closing :: "string \<Rightarrow> rx" where
  \<comment> \<open>the end of \<open>front_matter_re\<close> and of \<open>fence_re\<close>, after the lazy repetition\<close>
  "closing mark = seqs [Bol, Star Space, str mark, Star Space]"

definition rstrip :: "string \<Rightarrow> string" where
  \<comment> \<open>\<open>str.rstrip()\<close>\<close>
  "rstrip s = rev (dropWhile is_space (rev s))"

definition wf_block :: "string \<times> string list \<Rightarrow> bool" where
  \<comment> \<open>a bash block, as its name and the lines of its body\<close>
  "wf_block blk = (word_name (fst blk) \<and> list_all plain (snd blk))"

definition bash_items :: "(string \<times> string list) list \<Rightarrow> item list" where
  "bash_items blocks = map (\<lambda>blk. bash (fst blk) (snd blk)) blocks"

fun is_fence :: "item \<Rightarrow> bool" where
  "is_fence (Fence header body) = True"
| "is_fence (Para l) = False"

definition demo_fm :: "string list" where
  "demo_fm = [''slash: foo'', ''image: alpine:3'', ''outputs: [a, b, c]'']"

definition demo_blocks :: "(string \<times> string list) list" where
  "demo_blocks = [(''first'', [''echo a'']), (''second'', [''echo b''])]"

section \<open>Example documents\<close>

definition fences_only_text :: string where
  \<comment> \<open>two bash fences and no front matter\<close>
  "fences_only_text =
     ''```bash name=first\<newline>echo a\<newline>```\<newline>''
     @ ''```bash name=second\<newline>echo b\<newline>```\<newline>''"



definition accent_text :: string where
  \<comment> \<open>a bash fence whose name is the letter U+00E9\<close>
  "accent_text =
     ''---\<newline>slash: foo\<newline>---\<newline>''
     @ ''```bash name='' @ [CHR 0xE9] @ ''\<newline>echo a\<newline>```\<newline>''"

definition duplicate_blocks :: "(string \<times> string list) list" where
  "duplicate_blocks =
     [(''build'', [''echo a'']), (''test'', [''echo t'']), (''build'', [''echo b''])]"

section \<open>Properties\<close>

subsection \<open>The compiled script\<close>

lemma script_content_eq:
  "foldl (\<lambda>sc block. sc @ [block, '''']) init bash_blocks
     = init @ concat (map (\<lambda>block. [block, '''']) bash_blocks)"
  by (induction bash_blocks arbitrary: init) simp_all

lemma join_blocks:
  "join [NL] ('''' # concat (map (\<lambda>block. [block, '''']) bash_blocks))
     = concat (map (\<lambda>body. NL # body @ [NL]) bash_blocks)"
  by (induction bash_blocks) simp_all

lemma script_text:
  "join [NL] (script_content bash_blocks)
     = ''#!/bin/bash\<newline>set -euxo pipefail\<newline>''
       @ concat (map (\<lambda>body. NL # body @ [NL]) bash_blocks)"
  unfolding script_content_def script_content_eq
  using join_blocks [of bash_blocks] by (simp add: NL_def)

lemma and_then_events:
  "filter P (fst (and_then m f))
     = filter P (fst m) @ (case snd m of Inl a \<Rightarrow> [] | Inr x \<Rightarrow> filter P (fst (f x)))"
  by (cases m) (simp add: and_then_def split: sum.splits prod.splits)

lemma and_then_result:
  "snd (and_then m f) = (case snd m of Inl a \<Rightarrow> Inl a | Inr x \<Rightarrow> snd (f x))"
  by (cases m) (simp add: and_then_def split: sum.splits prod.splits)

lemma and_then_return:
  "and_then (evs, Inr x) f = (evs @ fst (f x), snd (f x))"
  by (simp add: and_then_def split_beta)

lemma and_then_abort:
  "snd m = Inl a \<Longrightarrow> and_then m f = m"
  by (cases m) (simp add: and_then_def)

lemma attempt_simps:
  "fst (attempt env e) = [e]"
  "snd (attempt env e) = (case raises env e of None \<Rightarrow> Inr () | Some x \<Rightarrow> Inl Uncaught)"
  by (simp_all add: attempt_def)

lemma compile_script_writes:
  "filter is_write_text (fst (compile_script env slash_name bash_blocks)) =
     [WriteText (path_str (truediv TEMP_DIR (slash_name @ ''.sh'')))
        (''#!/bin/bash\<newline>set -euxo pipefail\<newline>''
         @ concat (map (\<lambda>body. NL # body @ [NL]) bash_blocks))]"
  by (simp add: compile_script_def Let_def and_then_events attempt_simps is_write_text_def
      script_text split: sum.splits option.splits)

lemma compile_script_ok:
  assumes "raises env (WriteText (path_str (truediv TEMP_DIR (slash_name @ ''.sh'')))
                         (join [NL] (script_content bash_blocks))) = None"
    and "raises env (Chmod (path_str (truediv TEMP_DIR (slash_name @ ''.sh''))) 493) = None"
  shows "compile_script env slash_name bash_blocks =
     ([WriteText (path_str (truediv TEMP_DIR (slash_name @ ''.sh'')))
         (join [NL] (script_content bash_blocks)),
       Chmod (path_str (truediv TEMP_DIR (slash_name @ ''.sh''))) 493],
      Inr (truediv TEMP_DIR (slash_name @ ''.sh'')))"
  using assms by (simp add: compile_script_def Let_def and_then_def attempt_def)

lemma foo_path:
  "path_str (truediv TEMP_DIR (''foo'' @ ''.sh'')) = ''.out/tmp/foo.sh''"
  by code_simp

text \<open>
  C2. For every command name and every list of bodies, \<open>compile_script\<close> writes one
  file, at the path named after the command under the scratch directory; its text is
  the two lines \<open>#!/bin/bash\<close> and \<open>set -euxo pipefail\<close> followed by each body in order,
  each after a blank line and ended by a newline. For the bodies \<open>echo a\<close> and \<open>echo b\<close>
  and the command \<open>foo\<close> the text is the one the specification gives.
\<close>

theorem compile_script_text:
  "filter is_write_text (fst (compile_script env slash_name bash_blocks)) =
     [WriteText (path_str (truediv TEMP_DIR (slash_name @ ''.sh'')))
        (''#!/bin/bash\<newline>set -euxo pipefail\<newline>''
         @ concat (map (\<lambda>body. NL # body @ [NL]) bash_blocks))]
   \<and> filter is_write_text (fst (compile_script env ''foo'' [''echo a'', ''echo b''])) =
     [WriteText ''.out/tmp/foo.sh''
        ''#!/bin/bash\<newline>set -euxo pipefail\<newline>\<newline>echo a\<newline>\<newline>echo b\<newline>'']"
proof
  show "filter is_write_text (fst (compile_script env slash_name bash_blocks)) =
     [WriteText (path_str (truediv TEMP_DIR (slash_name @ ''.sh'')))
        (''#!/bin/bash\<newline>set -euxo pipefail\<newline>''
         @ concat (map (\<lambda>body. NL # body @ [NL]) bash_blocks))]"
    by (rule compile_script_writes)
  show "filter is_write_text (fst (compile_script env ''foo'' [''echo a'', ''echo b''])) =
     [WriteText ''.out/tmp/foo.sh''
        ''#!/bin/bash\<newline>set -euxo pipefail\<newline>\<newline>echo a\<newline>\<newline>echo b\<newline>'']"
    unfolding compile_script_writes foo_path by (simp add: NL_def)
qed

subsection \<open>Running one file\<close>

lemma handle_file_run:
  assumes "parse_markdown_text (yaml_safe_load env) (read_text env (path_str file_path))
             = Inr (front_matter, bash_blocks)"
    and "validate env front_matter schema = None"
    and "mode \<noteq> ''validate''"
    and "get_str env front_matter ''slash'' = Some slash_name"
    and "get_str env front_matter ''image'' = Some image_ref"
    and "get_list env front_matter ''outputs'' = Some outputs"
    and "reaches_container env file_path slash_name bash_blocks"
  shows "handle_file env file_path schema mode =
     (case and_then
             (run_docker env image_ref (truediv TEMP_DIR (slash_name @ ''.sh'')) slash_name outputs)
             (\<lambda>_. and_then
                     (attempt env (Unlink (path_str (truediv TEMP_DIR (slash_name @ ''.sh'')))))
                     (\<lambda>_. emit [Print (''Execution of /'' @ slash_name
                                        @ '' completed successfully.'')])) of
        (evs, r) \<Rightarrow>
          ([Print (''Processing file: '' @ path_str file_path @ '' (Mode: '' @ mode @ '')''),
            ReadText (path_str file_path),
            WriteText (path_str (truediv TEMP_DIR (slash_name @ ''.sh'')))
              (join [NL] (script_content bash_blocks)),
            Chmod (path_str (truediv TEMP_DIR (slash_name @ ''.sh''))) 493]
           @ evs,
           r))"
proof -
  from assms(7) have r: "raises env (ReadText (path_str file_path)) = None"
    and w: "raises env (WriteText (path_str (truediv TEMP_DIR (slash_name @ ''.sh'')))
                          (join [NL] (script_content bash_blocks))) = None"
    and c: "raises env (Chmod (path_str (truediv TEMP_DIR (slash_name @ ''.sh''))) 493) = None"
    by (simp_all add: reaches_container_def)
  have p: "parse_markdown env file_path
             = ([ReadText (path_str file_path)], Inr (front_matter, bash_blocks))"
    using assms(1) r by (simp add: parse_markdown_def and_then_def attempt_def)
  have v: "validate_front_matter env front_matter schema = ([], Inr ())"
    using assms(2) by (simp add: validate_front_matter_def)
  show ?thesis
    by (simp add: handle_file_def p v compile_script_ok [OF w c] assms(3-6)
        and_then_return emit_def lookup_def split_beta)
qed

lemma handle_file_aborted:
  assumes "parse_markdown_text (yaml_safe_load env) (read_text env (path_str file_path))
             = Inr (front_matter, bash_blocks)"
    and "validate env front_matter schema = None"
    and "mode \<noteq> ''validate''"
    and "get_str env front_matter ''slash'' = Some slash_name"
    and "get_str env front_matter ''image'' = Some image_ref"
    and "get_list env front_matter ''outputs'' = Some outputs"
    and "reaches_container env file_path slash_name bash_blocks"
    and "snd (run_docker env image_ref (truediv TEMP_DIR (slash_name @ ''.sh'')) slash_name outputs)
           = Inl a"
  shows "handle_file env file_path schema mode =
     ([Print (''Processing file: '' @ path_str file_path @ '' (Mode: '' @ mode @ '')''),
       ReadText (path_str file_path),
       WriteText (path_str (truediv TEMP_DIR (slash_name @ ''.sh'')))
         (join [NL] (script_content bash_blocks)),
       Chmod (path_str (truediv TEMP_DIR (slash_name @ ''.sh''))) 493]
      @ fst (run_docker env image_ref (truediv TEMP_DIR (slash_name @ ''.sh'')) slash_name outputs),
      Inl a)"
  unfolding handle_file_run [OF assms(1-7)] and_then_abort [OF assms(8)]
  using assms(8) by (simp add: split_beta)

lemma demo_parse:
  "parse_markdown_text Inr demo_text
     = Inr (''slash: foo\<newline>image: alpine:3\<newline>outputs: [a, b, c]\<newline>'', ['''', ''''])"
  by code_simp

lemma verify_outputs_flag:
  assumes "\<forall>output \<in> set outputs. raises env (Exists output) = None"
  shows "snd (verify_outputs env outputs flag)
           = Inr (flag \<and> (\<forall>output \<in> set outputs. path_exists env output))"
  using assms by (induction outputs arbitrary: flag) auto

lemma verify_outputs_events:
  assumes "\<forall>output \<in> set outputs. raises env (Exists output) = None"
  shows "fst (verify_outputs env outputs flag) =
     concat (map (\<lambda>output.
       [Exists output,
        if \<not> path_exists env output
        then Print (''Output Verification Failed: Declared output '' @ quote @ output @ quote
                    @ '' does not exist.'')
        else Print (''Output Verified: '' @ quote @ output @ quote @ '' exists.'')]) outputs)"
  using assms by (induction outputs arbitrary: flag) simp_all

lemma verify_outputs_reports:
  assumes "\<forall>output \<in> set outputs. raises env (Exists output) = None"
    and "output \<in> set outputs" and "\<not> path_exists env output"
  shows "Print (''Output Verification Failed: Declared output '' @ quote @ output @ quote
            @ '' does not exist.'') \<in> set (fst (verify_outputs env outputs flag))"
  unfolding verify_outputs_events [OF assms(1)] using assms(2,3) by (induction outputs) auto

lemma run_docker_started:
  assumes "raises env (Mkdir ''.out'') = None"
    and "raises env (OpenWrite (path_str (truediv LOG_DIR (slash_name @ ''.log'')))) = None"
  shows "run_docker env image_ref p slash_name outputs =
     (case run_container env (docker_cmd (cwd env) image_ref p)
             (truediv LOG_DIR (slash_name @ ''.log'')) slash_name outputs of
        (evs, r) \<Rightarrow>
          ([Print (''--- Running /'' @ slash_name @ '' in Docker ---''),
            Mkdir ''.out'',
            OpenWrite (path_str (truediv LOG_DIR (slash_name @ ''.log'')))] @ evs, r))"
  using assms by (simp add: run_docker_def Let_def and_then_def emit_def attempt_def split_beta)

lemma run_docker_missing:
  assumes "raises env (Mkdir ''.out'') = None"
    and "raises env (OpenWrite (path_str (truediv LOG_DIR (slash_name @ ''.log'')))) = None"
    and "subprocess_run env (docker_cmd (cwd env) image_ref p) = Completed 0"
    and "\<forall>output \<in> set outputs. raises env (Exists output) = None"
    and "output \<in> set outputs" and "\<not> path_exists env output"
  shows "snd (run_docker env image_ref p slash_name outputs) = Inl (SysExit 1)"
    and "Print (''Output Verification Failed: Declared output '' @ quote @ output @ quote
                @ '' does not exist.'')
           \<in> set (fst (run_docker env image_ref p slash_name outputs))"
proof -
  obtain evs where v: "verify_outputs env outputs True = (evs, Inr False)"
    using verify_outputs_flag [OF assms(4), of True] assms(5,6)
    by (cases "verify_outputs env outputs True") auto
  from verify_outputs_reports [where flag = True, OF assms(4,5,6)] v
  have rep: "Print (''Output Verification Failed: Declared output '' @ quote @ output @ quote
                    @ '' does not exist.'') \<in> set evs" by simp
  show "snd (run_docker env image_ref p slash_name outputs) = Inl (SysExit 1)"
    unfolding run_docker_started [OF assms(1,2)]
    using assms(3) v by (simp add: run_container_def)
  show "Print (''Output Verification Failed: Declared output '' @ quote @ output @ quote
               @ '' does not exist.'')
          \<in> set (fst (run_docker env image_ref p slash_name outputs))"
    unfolding run_docker_started [OF assms(1,2)]
    using assms(3) v rep by (simp add: run_container_def)
qed

text \<open>
  C3, as amended. When a run reaches the container, the container exits with code zero,
  every existence check of a declared output completes (\<open>Path.exists\<close> raises for none of
  them) and a declared output does not exist afterwards, the run ends with \<open>sys.exit(1)\<close>
  and the line reporting that output as missing has been printed; this holds for each
  missing output, so every one of them is reported.
\<close>

theorem missing_outputs_all_reported:
  assumes "parse_markdown_text (yaml_safe_load env) (read_text env (path_str file_path))
             = Inr (front_matter, bash_blocks)"
    and "validate env front_matter schema = None"
    and "mode \<noteq> ''validate''"
    and "get_str env front_matter ''slash'' = Some slash_name"
    and "get_str env front_matter ''image'' = Some image_ref"
    and "get_list env front_matter ''outputs'' = Some outputs"
    and "reaches_container env file_path slash_name bash_blocks"
    and "subprocess_run env
           (docker_cmd (cwd env) image_ref (truediv TEMP_DIR (slash_name @ ''.sh'')))
         = Completed 0"
    and "\<forall>output \<in> set outputs. raises env (Exists output) = None"
    and "output \<in> set outputs"
    and "\<not> path_exists env output"
  shows "snd (handle_file env file_path schema mode) = Inl (SysExit 1)
     \<and> Print (''Output Verification Failed: Declared output '' @ quote @ output @ quote
              @ '' does not exist.'')
         \<in> set (fst (handle_file env file_path schema mode))"
proof -
  from assms(7) have m: "raises env (Mkdir ''.out'') = None"
    and l: "raises env (OpenWrite (path_str (truediv LOG_DIR (slash_name @ ''.log'')))) = None"
    by (simp_all add: reaches_container_def)
  note r = run_docker_missing [OF m l assms(8,9,10,11)]
  show ?thesis
    unfolding handle_file_aborted [OF assms(1-7) r(1)] using r(2) by simp
qed

lemma demo_env_simps:
  "read_text (demo_env result ex) p = demo_text"
  "yaml_safe_load (demo_env result ex) = Inr"
  "validate (demo_env result ex) fm sch = None"
  "get_str (demo_env result ex) fm ''slash'' = Some ''foo''"
  "get_str (demo_env result ex) fm ''image'' = Some ''alpine:3''"
  "get_list (demo_env result ex) fm ''outputs'' = Some [''a'', ''b'', ''c'']"
  "cwd (demo_env result ex) = Path ''/work''"
  "subprocess_run (demo_env result ex) cmd = result"
  "path_exists (demo_env result ex) = ex"
  "raises (demo_env result ex) e = None"
  by (simp_all add: demo_env_def)

lemma demo_reaches_container:
  "reaches_container (demo_env result ex) file_path slash_name bash_blocks"
  by (simp add: reaches_container_def demo_env_simps)

theorem missing_outputs_all_reported_witness:
  "snd (handle_file (demo_env (Completed 0) (\<lambda>p. p = ''b'')) (Path ''cmd.md'') () ''run'')
     = Inl (SysExit 1)
   \<and> Print (''Output Verification Failed: Declared output '' @ quote @ ''a'' @ quote
            @ '' does not exist.'')
       \<in> set (fst (handle_file (demo_env (Completed 0) (\<lambda>p. p = ''b'')) (Path ''cmd.md'') () ''run''))
   \<and> Print (''Output Verification Failed: Declared output '' @ quote @ ''c'' @ quote
            @ '' does not exist.'')
       \<in> set (fst (handle_file (demo_env (Completed 0) (\<lambda>p. p = ''b'')) (Path ''cmd.md'') () ''run''))"
proof -
  let ?env = "demo_env (Completed 0) (\<lambda>p. p = ''b'')"
  let ?fm = "''slash: foo\<newline>image: alpine:3\<newline>outputs: [a, b, c]\<newline>''"
  have p: "parse_markdown_text (yaml_safe_load ?env) (read_text ?env (path_str (Path ''cmd.md'')))
             = Inr (?fm, ['''', ''''])"
    by (simp only: demo_env_simps demo_parse)
  have v: "validate ?env ?fm () = None" by (simp only: demo_env_simps)
  have m: "''run'' \<noteq> ''validate''" by simp
  have s: "get_str ?env ?fm ''slash'' = Some ''foo''" by (simp only: demo_env_simps)
  have i: "get_str ?env ?fm ''image'' = Some ''alpine:3''" by (simp only: demo_env_simps)
  have l: "get_list ?env ?fm ''outputs'' = Some [''a'', ''b'', ''c'']"
    by (simp only: demo_env_simps)
  have g: "reaches_container ?env (Path ''cmd.md'') ''foo'' ['''', '''']"
    by (rule demo_reaches_container)
  have r: "subprocess_run ?env (docker_cmd (cwd ?env) ''alpine:3'' (truediv TEMP_DIR (''foo'' @ ''.sh'')))
             = Completed 0"
    by (simp only: demo_env_simps)
  have e: "\<forall>output \<in> set [''a'', ''b'', ''c'']. raises ?env (Exists output) = None"
    by (simp add: demo_env_simps)
  have a: "''a'' \<in> set [''a'', ''b'', ''c'']" "\<not> path_exists ?env ''a''"
    by (simp_all add: demo_env_simps)
  have c: "''c'' \<in> set [''a'', ''b'', ''c'']" "\<not> path_exists ?env ''c''"
    by (simp_all add: demo_env_simps)
  from missing_outputs_all_reported [OF p v m s i l g r e a]
       missing_outputs_all_reported [OF p v m s i l g r e c]
  show ?thesis by blast
qed

lemma refusing_env_simps:
  "read_text refusing_env p = demo_text"
  "yaml_safe_load refusing_env = Inr"
  "validate refusing_env fm sch = None"
  "get_str refusing_env fm ''slash'' = Some ''foo''"
  "get_str refusing_env fm ''image'' = Some ''alpine:3''"
  "get_list refusing_env fm ''outputs'' = Some [''a'', ''b'', ''c'']"
  "cwd refusing_env = Path ''/work''"
  "subprocess_run refusing_env cmd = Completed 0"
  "path_exists refusing_env = (\<lambda>p. p = ''b'')"
  "raises refusing_env e = (if e = Exists ''a'' then Some OtherOSError else None)"
  by (simp_all add: refusing_env_def demo_env_def)

lemma refusing_env_reaches_container:
  "reaches_container refusing_env file_path slash_name bash_blocks"
  by (simp add: reaches_container_def refusing_env_simps)

theorem missing_outputs_counterexample:
  "subprocess_run refusing_env
     (docker_cmd (cwd refusing_env) ''alpine:3'' (truediv TEMP_DIR (''foo'' @ ''.sh'')))
     = Completed 0
   \<and> \<not> path_exists refusing_env ''a'' \<and> \<not> path_exists refusing_env ''c''
   \<and> snd (handle_file refusing_env (Path ''cmd.md'') () ''run'') = Inl Uncaught
   \<and> Print (''Output Verification Failed: Declared output '' @ quote @ ''c'' @ quote
            @ '' does not exist.'')
       \<notin> set (fst (handle_file refusing_env (Path ''cmd.md'') () ''run''))"
proof -
  let ?fm = "''slash: foo\<newline>image: alpine:3\<newline>outputs: [a, b, c]\<newline>''"
  let ?p = "truediv TEMP_DIR (''foo'' @ ''.sh'')"
  have p: "parse_markdown_text (yaml_safe_load refusing_env)
             (read_text refusing_env (path_str (Path ''cmd.md''))) = Inr (?fm, ['''', ''''])"
    by (simp only: refusing_env_simps demo_parse)
  have v: "validate refusing_env ?fm () = None" by (simp only: refusing_env_simps)
  have m: "''run'' \<noteq> ''validate''" by simp
  have s: "get_str refusing_env ?fm ''slash'' = Some ''foo''" by (simp only: refusing_env_simps)
  have i: "get_str refusing_env ?fm ''image'' = Some ''alpine:3''"
    by (simp only: refusing_env_simps)
  have l: "get_list refusing_env ?fm ''outputs'' = Some [''a'', ''b'', ''c'']"
    by (simp only: refusing_env_simps)
  have g: "reaches_container refusing_env (Path ''cmd.md'') ''foo'' ['''', '''']"
    by (rule refusing_env_reaches_container)
  have d: "run_docker refusing_env ''alpine:3'' ?p ''foo'' [''a'', ''b'', ''c''] =
     ([Print (''--- Running /'' @ ''foo'' @ '' in Docker ---''),
       Mkdir ''.out'',
       OpenWrite (path_str (truediv LOG_DIR (''foo'' @ ''.log''))),
       Exec (docker_cmd (cwd refusing_env) ''alpine:3'' ?p),
       Print (''Docker run successful. Logs written to ''
              @ path_str (truediv LOG_DIR (''foo'' @ ''.log''))),
       Print ''--- Verifying Outputs ---'',
       Exists ''a''],
      Inl Uncaught)"
    by (simp add: run_docker_started refusing_env_simps run_container_def)
  have a: "snd (run_docker refusing_env ''alpine:3'' ?p ''foo'' [''a'', ''b'', ''c''])
             = Inl Uncaught"
    unfolding d by simp
  show ?thesis
    unfolding handle_file_aborted [OF p v m s i l g a] d
    by (simp add: refusing_env_simps)
qed

lemma verify_outputs_no_exec:
  "filter is_exec (fst (verify_outputs env outputs flag)) = []"
  by (induction outputs arbitrary: flag) (simp_all add: is_exec_def split: option.splits)

lemma run_container_exec:
  "filter is_exec (fst (run_container env cmd log_file slash_name outputs)) = [Exec cmd]"
proof -
  obtain evs ok where v: "verify_outputs env outputs True = (evs, ok)"
    by (cases "verify_outputs env outputs True")
  from verify_outputs_no_exec [of env outputs True] v
  have "filter is_exec evs = []" by simp
  then show ?thesis
    using v
    by (simp add: run_container_def and_then_def emit_def docker_not_found_def fail_with_def
        is_exec_def split: proc.splits sum.splits os_error.splits)
qed

lemma run_docker_exec:
  assumes "raises env (Mkdir ''.out'') = None"
    and "raises env (OpenWrite (path_str (truediv LOG_DIR (slash_name @ ''.log'')))) = None"
  shows "filter is_exec (fst (run_docker env image_ref p slash_name outputs))
     = [Exec (docker_cmd (cwd env) image_ref p)]"
  unfolding run_docker_started [OF assms]
  using run_container_exec [of env "docker_cmd (cwd env) image_ref p"
          "truediv LOG_DIR (slash_name @ ''.log'')" slash_name outputs]
  by (simp add: is_exec_def split_beta)

lemma verify_outputs_no_write:
  "filter is_write_text (fst (verify_outputs env outputs flag)) = []"
  by (induction outputs arbitrary: flag) (simp_all add: is_write_text_def split: option.splits)

lemma run_container_no_write:
  "filter is_write_text (fst (run_container env cmd log_file slash_name outputs)) = []"
proof -
  obtain evs ok where v: "verify_outputs env outputs True = (evs, ok)"
    by (cases "verify_outputs env outputs True")
  from verify_outputs_no_write [of env outputs True] v
  have "filter is_write_text evs = []" by simp
  then show ?thesis
    using v
    by (simp add: run_container_def and_then_def emit_def docker_not_found_def fail_with_def
        is_write_text_def split: proc.splits sum.splits os_error.splits)
qed

lemma run_docker_no_write:
  "filter is_write_text (fst (run_docker env image_ref p slash_name outputs)) = []"
  using run_container_no_write [of env "docker_cmd (cwd env) image_ref p"
          "truediv LOG_DIR (slash_name @ ''.log'')" slash_name outputs]
  by (simp add: run_docker_def Let_def and_then_events attempt_simps emit_def
      docker_not_found_def fail_with_def is_write_text_def
      split: sum.splits option.splits os_error.splits)

lemma nested_name_example:
  "path_str (truediv TEMP_DIR (''a/b'' @ ''.sh'')) = ''.out/tmp/a/b.sh''
   \<and> ''/tmp/'' @ path_name (truediv TEMP_DIR (''a/b'' @ ''.sh'')) = ''/tmp/b.sh''"
  by code_simp

text \<open>
  C4. A run that reaches the container (the document parses, the front matter passes
  the schema and has its three entries, and the calls on files before the container
  succeed) starts exactly one process, \<open>docker run --rm\<close> with the working directory
  mounted at \<open>/src\<close> read-only, its \<open>.out\<close> directory mounted at \<open>/out\<close>, \<open>/src\<close> as
  working directory, \<open>/bin/sh\<close> as entry point and the image of the front matter. Its
  last argument, however, is \<open>/tmp/\<close> followed by the file name of the compiled script:
  a path under neither \<open>/src\<close> nor \<open>/out\<close>, the only two places where the command makes
  files of the host visible. The script is the one file the run has written, at the
  path named after the command under \<open>.out/tmp\<close> in the working directory; inside the
  container that file is under \<open>/src/.out/tmp\<close> and \<open>/out/tmp\<close>. So the argument is not
  the path of the compiled script inside the container (for the command \<open>a/b\<close> not even
  its last directory is kept, see \<open>nested_name_example\<close>).
\<close>

theorem container_invocation:
  assumes "parse_markdown_text (yaml_safe_load env) (read_text env (path_str file_path))
             = Inr (front_matter, bash_blocks)"
    and "validate env front_matter schema = None"
    and "mode \<noteq> ''validate''"
    and "get_str env front_matter ''slash'' = Some slash_name"
    and "get_str env front_matter ''image'' = Some image_ref"
    and "get_list env front_matter ''outputs'' = Some outputs"
    and "reaches_container env file_path slash_name bash_blocks"
  shows "filter is_exec (fst (handle_file env file_path schema mode)) =
     [Exec [''docker'', ''run'', ''--rm'',
            ''-v'', path_str (cwd env) @ '':/src:ro'',
            ''-v'', path_str (truediv (cwd env) ''.out'') @ '':/out'',
            ''-w'', ''/src'',
            ''--entrypoint'', ''/bin/sh'',
            image_ref,
            ''/tmp/'' @ path_name (truediv TEMP_DIR (slash_name @ ''.sh''))]]
     \<and> filter is_write_text (fst (handle_file env file_path schema mode)) =
     [WriteText (path_str (truediv TEMP_DIR (slash_name @ ''.sh'')))
        (join [NL] (script_content bash_blocks))]
     \<and> \<not> startswith (''/tmp/'' @ path_name (truediv TEMP_DIR (slash_name @ ''.sh''))) ''/src/''
     \<and> \<not> startswith (''/tmp/'' @ path_name (truediv TEMP_DIR (slash_name @ ''.sh''))) ''/out/''"
proof -
  let ?p = "truediv TEMP_DIR (slash_name @ ''.sh'')"
  from assms(7) have m: "raises env (Mkdir ''.out'') = None"
    and l: "raises env (OpenWrite (path_str (truediv LOG_DIR (slash_name @ ''.log'')))) = None"
    by (simp_all add: reaches_container_def)
  have e: "filter is_exec (fst (run_docker env image_ref ?p slash_name outputs))
             = [Exec (docker_cmd (cwd env) image_ref ?p)]"
    by (rule run_docker_exec [OF m l])
  have w: "filter is_write_text (fst (run_docker env image_ref ?p slash_name outputs)) = []"
    by (rule run_docker_no_write)
  have x: "filter is_exec (fst (handle_file env file_path schema mode))
             = [Exec (docker_cmd (cwd env) image_ref ?p)]"
    unfolding handle_file_run [OF assms(1-7)]
    by (simp add: split_beta and_then_events e attempt_simps emit_def is_exec_def
        split: sum.splits option.splits)
  have y: "filter is_write_text (fst (handle_file env file_path schema mode))
             = [WriteText (path_str ?p) (join [NL] (script_content bash_blocks))]"
    unfolding handle_file_run [OF assms(1-7)]
    by (simp add: split_beta and_then_events w attempt_simps emit_def is_write_text_def
        split: sum.splits option.splits)
  have z: "\<not> startswith (''/tmp/'' @ path_name ?p) ''/src/''"
    "\<not> startswith (''/tmp/'' @ path_name ?p) ''/out/''"
    by (simp_all add: startswith_def)
  from x y z show ?thesis by (simp add: docker_cmd_def)
qed

theorem container_invocation_witness:
  "filter is_exec (fst (handle_file (demo_env (Completed 0) (\<lambda>p. True)) (Path ''cmd.md'') () ''run'')) =
     [Exec [''docker'', ''run'', ''--rm'', ''-v'', ''/work:/src:ro'', ''-v'', ''/work/.out:/out'',
            ''-w'', ''/src'', ''--entrypoint'', ''/bin/sh'', ''alpine:3'', ''/tmp/foo.sh'']]
   \<and> filter is_write_text
        (fst (handle_file (demo_env (Completed 0) (\<lambda>p. True)) (Path ''cmd.md'') () ''run'')) =
     [WriteText ''.out/tmp/foo.sh'' ''#!/bin/bash\<newline>set -euxo pipefail\<newline>\<newline>\<newline>\<newline>\<newline>'']
   \<and> \<not> startswith ''/tmp/foo.sh'' ''/src/''
   \<and> \<not> startswith ''/tmp/foo.sh'' ''/out/''"
proof -
  let ?env = "demo_env (Completed 0) (\<lambda>p. True)"
  let ?fm = "''slash: foo\<newline>image: alpine:3\<newline>outputs: [a, b, c]\<newline>''"
  have p: "parse_markdown_text (yaml_safe_load ?env) (read_text ?env (path_str (Path ''cmd.md'')))
             = Inr (?fm, ['''', ''''])"
    by (simp only: demo_env_simps demo_parse)
  have v: "validate ?env ?fm () = None" by (simp only: demo_env_simps)
  have m: "''run'' \<noteq> ''validate''" by simp
  have s: "get_str ?env ?fm ''slash'' = Some ''foo''" by (simp only: demo_env_simps)
  have i: "get_str ?env ?fm ''image'' = Some ''alpine:3''" by (simp only: demo_env_simps)
  have l: "get_list ?env ?fm ''outputs'' = Some [''a'', ''b'', ''c'']"
    by (simp only: demo_env_simps)
  have g: "reaches_container ?env (Path ''cmd.md'') ''foo'' ['''', '''']"
    by (rule demo_reaches_container)
  have c: "path_str (cwd ?env) @ '':/src:ro'' = ''/work:/src:ro''"
    "path_str (truediv (cwd ?env) ''.out'') @ '':/out'' = ''/work/.out:/out''"
    unfolding demo_env_simps by code_simp+
  have n: "''/tmp/'' @ path_name (truediv TEMP_DIR (''foo'' @ ''.sh'')) = ''/tmp/foo.sh''"
    by code_simp
  have t: "join [NL] (script_content ['''', ''''])
             = ''#!/bin/bash\<newline>set -euxo pipefail\<newline>\<newline>\<newline>\<newline>\<newline>''"
    by code_simp
  from container_invocation [OF p v m s i l g] show ?thesis unfolding c n foo_path t .
qed

lemma run_docker_failed:
  assumes "raises env (Mkdir ''.out'') = None"
    and "raises env (OpenWrite (path_str (truediv LOG_DIR (slash_name @ ''.log'')))) = None"
    and "subprocess_run env (docker_cmd (cwd env) image_ref p) = Completed returncode"
    and "returncode \<noteq> 0"
  shows "snd (run_docker env image_ref p slash_name outputs) = Inl (SysExit returncode)"
    and "filter is_exists (fst (run_docker env image_ref p slash_name outputs)) = []"
  unfolding run_docker_started [OF assms(1,2)]
  using assms(3,4) by (simp_all add: run_container_def is_exists_def)

text \<open>
  C5. When a run reaches the container and the container invocation returns a code
  other than zero, the run ends with \<open>sys.exit\<close> of that very code, and no declared
  output has been checked for existence.
\<close>

theorem container_failure_exit_code:
  assumes "parse_markdown_text (yaml_safe_load env) (read_text env (path_str file_path))
             = Inr (front_matter, bash_blocks)"
    and "validate env front_matter schema = None"
    and "mode \<noteq> ''validate''"
    and "get_str env front_matter ''slash'' = Some slash_name"
    and "get_str env front_matter ''image'' = Some image_ref"
    and "get_list env front_matter ''outputs'' = Some outputs"
    and "reaches_container env file_path slash_name bash_blocks"
    and "subprocess_run env
           (docker_cmd (cwd env) image_ref (truediv TEMP_DIR (slash_name @ ''.sh'')))
         = Completed returncode"
    and "returncode \<noteq> 0"
  shows "snd (handle_file env file_path schema mode) = Inl (SysExit returncode)
     \<and> filter is_exists (fst (handle_file env file_path schema mode)) = []"
proof -
  from assms(7) have m: "raises env (Mkdir ''.out'') = None"
    and l: "raises env (OpenWrite (path_str (truediv LOG_DIR (slash_name @ ''.log'')))) = None"
    by (simp_all add: reaches_container_def)
  note r = run_docker_failed [OF m l assms(8,9), of outputs]
  show ?thesis
    unfolding handle_file_aborted [OF assms(1-7) r(1)] using r(2) by (simp add: is_exists_def)
qed

theorem container_failure_exit_code_witness:
  "snd (handle_file (demo_env (Completed 3) (\<lambda>p. True)) (Path ''cmd.md'') () ''run'')
     = Inl (SysExit 3)
   \<and> filter is_exists
        (fst (handle_file (demo_env (Completed 3) (\<lambda>p. True)) (Path ''cmd.md'') () ''run'')) = []"
proof -
  let ?env = "demo_env (Completed 3) (\<lambda>p. True)"
  let ?fm = "''slash: foo\<newline>image: alpine:3\<newline>outputs: [a, b, c]\<newline>''"
  have p: "parse_markdown_text (yaml_safe_load ?env) (read_text ?env (path_str (Path ''cmd.md'')))
             = Inr (?fm, ['''', ''''])"
    by (simp only: demo_env_simps demo_parse)
  have v: "validate ?env ?fm () = None" by (simp only: demo_env_simps)
  have m: "''run'' \<noteq> ''validate''" by simp
  have s: "get_str ?env ?fm ''slash'' = Some ''foo''" by (simp only: demo_env_simps)
  have i: "get_str ?env ?fm ''image'' = Some ''alpine:3''" by (simp only: demo_env_simps)
  have l: "get_list ?env ?fm ''outputs'' = Some [''a'', ''b'', ''c'']"
    by (simp only: demo_env_simps)
  have g: "reaches_container ?env (Path ''cmd.md'') ''foo'' ['''', '''']"
    by (rule demo_reaches_container)
  have r: "subprocess_run ?env (docker_cmd (cwd ?env) ''alpine:3'' (truediv TEMP_DIR (''foo'' @ ''.sh'')))
             = Completed 3"
    by (simp only: demo_env_simps)
  have n: "(3::int) \<noteq> 0" by simp
  from container_failure_exit_code [OF p v m s i l g r n] show ?thesis .
qed

text \<open>
  C10. In validate mode, whatever the document, the schema and the world, handling a
  file reads the document once and otherwise only prints: apart from that read, no
  event of the run is anything but a printed line, so nothing is written, created,
  truncated, deleted or executed. It ends by returning, by \<open>sys.exit(1)\<close>, or with the
  exception of the read.
\<close>

theorem validate_mode_only_reads:
  "filter (\<lambda>e. \<not> is_print e) (fst (handle_file env file_path schema ''validate''))
     = [ReadText (path_str file_path)]
   \<and> (snd (handle_file env file_path schema ''validate'') = Inr ()
      \<or> snd (handle_file env file_path schema ''validate'') = Inl (SysExit 1)
      \<or> snd (handle_file env file_path schema ''validate'') = Inl Uncaught)"
  by (simp add: handle_file_def and_then_def emit_def parse_markdown_def fail_with_def
      attempt_def validate_front_matter_def is_print_def
      split: sum.splits prod.splits option.splits)

theorem validate_mode_only_reads_witness:
  "filter (\<lambda>e. \<not> is_print e)
     (fst (handle_file (demo_env CommandNotFound (\<lambda>p. False)) (Path ''cmd.md'') () ''validate''))
     = [ReadText ''cmd.md'']
   \<and> snd (handle_file (demo_env CommandNotFound (\<lambda>p. False)) (Path ''cmd.md'') () ''validate'')
       = Inr ()"
proof -
  have p: "path_str (Path ''cmd.md'') = ''cmd.md''" by code_simp
  have r: "snd (handle_file (demo_env CommandNotFound (\<lambda>p. False)) (Path ''cmd.md'') () ''validate'')
             = Inr ()"
    by (simp add: handle_file_def and_then_def emit_def parse_markdown_def attempt_def
        validate_front_matter_def demo_env_simps demo_parse)
  from validate_mode_only_reads
         [of "demo_env CommandNotFound (\<lambda>p. False)" "Path ''cmd.md''" "()"] r
  show ?thesis unfolding p by simp
qed

subsection \<open>No pattern of the program matches the empty string\<close>

lemma greedy_shrinks:
  "greedy k b s cont = Some x \<Longrightarrow> \<exists>b' s'. cont b' s' = Some x \<and> length s' \<le> length s"
proof (induction s arbitrary: b)
  case Nil
  then show ?case by auto
next
  case (Cons c cs)
  show ?case
  proof (cases "in_cls k c \<and> greedy k (c = NL) cs cont \<noteq> None")
    case True
    with Cons.prems have "greedy k (c = NL) cs cont = Some x" by auto
    from Cons.IH [OF this] obtain b' s'
      where "cont b' s' = Some x" "length s' \<le> length cs" by blast
    then show ?thesis by (intro exI [of _ b'] exI [of _ s']) simp
  next
    case False
    with Cons.prems have "cont b (c # cs) = Some x" by (auto split: if_splits)
    then show ?thesis by (intro exI [of _ b] exI [of _ "c # cs"]) simp
  qed
qed

lemma lazy_shrinks:
  "lazy k b s cont = Some x \<Longrightarrow> \<exists>b' s'. cont b' s' = Some x \<and> length s' \<le> length s"
proof (induction s arbitrary: b)
  case Nil
  then show ?case by auto
next
  case (Cons c cs)
  show ?case
  proof (cases "cont b (c # cs)")
    case (Some y)
    with Cons.prems have "cont b (c # cs) = Some x" by simp
    then show ?thesis by (intro exI [of _ b] exI [of _ "c # cs"]) simp
  next
    case None
    with Cons.prems have "lazy k (c = NL) cs cont = Some x" by (auto split: if_splits)
    from Cons.IH [OF this] obtain b' s'
      where "cont b' s' = Some x" "length s' \<le> length cs" by blast
    then show ?thesis by (intro exI [of _ b'] exI [of _ s']) simp
  qed
qed

lemma rmatch_consumes:
  "rmatch r b s cont = Some x \<Longrightarrow>
     \<exists>b' s'. cont b' s' = Some x \<and> length s' + min_len r \<le> length s"
proof (induction r arbitrary: b s cont x)
  case Eps
  then show ?case by auto
next
  case (Lit c)
  then show ?case by (cases s) (auto split: if_splits)
next
  case Bol
  then show ?case by (auto split: if_splits)
next
  case (Star k)
  then show ?case using greedy_shrinks [of k b s cont x] by simp
next
  case (Lazy k)
  then show ?case using lazy_shrinks [of k b s cont x] by simp
next
  case (Plus k)
  then obtain c cs where s: "s = c # cs" and g: "greedy k (c = NL) cs cont = Some x"
    by (cases s) (auto split: if_splits)
  from greedy_shrinks [OF g] obtain b' s'
    where "cont b' s' = Some x" "length s' \<le> length cs" by blast
  with s show ?case by (intro exI [of _ b'] exI [of _ s']) simp
next
  case (Seq p q)
  from Seq.prems have "rmatch p b s (\<lambda>b' s'. rmatch q b' s' cont) = Some x" by simp
  from Seq.IH(1) [OF this] obtain b1 s1
    where 1: "rmatch q b1 s1 cont = Some x" "length s1 + min_len p \<le> length s" by blast
  from Seq.IH(2) [OF 1(1)] obtain b2 s2
    where 2: "cont b2 s2 = Some x" "length s2 + min_len q \<le> length s1" by blast
  from 1(2) 2 show ?case by (intro exI [of _ b2] exI [of _ s2]) simp
next
  case (Alt p q)
  show ?case
  proof (cases "rmatch p b s cont")
    case (Some y)
    with Alt.prems have "rmatch p b s cont = Some x" by simp
    from Alt.IH(1) [OF this] obtain b' s'
      where "cont b' s' = Some x" "length s' + min_len p \<le> length s" by blast
    then show ?thesis by (intro exI [of _ b'] exI [of _ s']) simp
  next
    case None
    with Alt.prems have "rmatch q b s cont = Some x" by simp
    from Alt.IH(2) [OF this] obtain b' s'
      where "cont b' s' = Some x" "length s' + min_len q \<le> length s" by blast
    then show ?thesis by (intro exI [of _ b'] exI [of _ s']) simp
  qed
qed

lemma match_consumes:
  assumes "0 < min_len r" and "match_at r b s = Some (b', s')"
  shows "length s' < length s"
  using rmatch_consumes [OF assms(2) [unfolded match_at_def]] assms(1) by auto

lemma patterns_min_len:
  "min_len split_re = 3" "min_len front_matter_re = 6" "min_len fence_re = 6"
  "min_len name_re = 6"
  by (simp_all add: split_re_def front_matter_re_def fence_re_def name_re_def seqs_def str_def)

lemma nonempty_match_patterns:
  assumes "r = split_re \<or> r = front_matter_re \<or> r = fence_re"
  shows "nonempty_match r b s = match_at r b s"
proof -
  from assms have "0 < min_len r" by (auto simp: patterns_min_len)
  from match_consumes [OF this] show ?thesis
    by (auto simp: nonempty_match_def split: option.splits)
qed

subsection \<open>Matching, step by step\<close>

lemma space_NL [simp]: "is_space NL"
  by (simp add: is_space_def NL_def)

lemma not_space_marks [simp]: "\<not> is_space (CHR ''-'')" "\<not> is_space (CHR 0x60)"
  by (simp_all add: is_space_def)

lemma NL_not_marks [simp]: "NL \<noteq> CHR ''-''" "NL \<noteq> CHR 0x60" "CHR ''-'' \<noteq> NL" "CHR 0x60 \<noteq> NL"
  by (simp_all add: NL_def)

lemma solid_simps [simp]:
  "solid []" "solid (c # cs) = (\<not> is_space c)"
  by (simp_all add: solid_def)

lemma greedy_space_NL:
  "solid t \<Longrightarrow>
     greedy Space b (NL # t) k = (case k True t of Some r \<Rightarrow> Some r | None \<Rightarrow> k b (NL # t))"
  by (cases t) auto

lemma nonspace_not_NL: "\<not> is_space c \<Longrightarrow> c \<noteq> NL"
  by auto

lemma split_re_mid: "match_at split_re False s = None"
  by (simp add: match_at_def split_re_def)

lemma split_re_nil: "match_at split_re True [] = None"
  by (simp add: match_at_def split_re_def seqs_def str_def)

lemma split_re_plain:
  "\<not> is_space c \<Longrightarrow> c \<noteq> CHR ''-'' \<Longrightarrow> c \<noteq> CHR 0x60 \<Longrightarrow> match_at split_re True (c # s) = None"
  by (simp add: match_at_def split_re_def seqs_def str_def)

lemma split_re_fence: "match_at split_re True (''```'' @ t) = Some (False, t)"
  by (simp add: match_at_def split_re_def seqs_def str_def NL_def)

lemma split_re_dashes:
  "solid t \<Longrightarrow> match_at split_re True (''---'' @ NL # t) = Some (True, t)"
  by (cases t) (auto simp add: match_at_def split_re_def seqs_def str_def)

lemma pieces_match:
  "match_at r b s = Some (b', s') \<Longrightarrow> length s' < length s \<Longrightarrow>
     pieces r b s acc = rev acc # pieces r b' s' []"
  by (subst pieces.simps) (simp add: nonempty_match_def)

lemma pieces_skip:
  "match_at r b (c # cs) = None \<Longrightarrow> pieces r b (c # cs) acc = pieces r (c = NL) cs (c # acc)"
  by (subst pieces.simps) (simp add: nonempty_match_def)

lemma pieces_end:
  "match_at r b [] = None \<Longrightarrow> pieces r b [] acc = [rev acc]"
  by (subst pieces.simps) (simp add: nonempty_match_def)

lemma pieces_rest_of_line:
  assumes mid: "\<And>s. match_at r False s = None" and "NL \<notin> set l"
  shows "pieces r False (l @ NL # rest) acc = pieces r True rest (NL # rev l @ acc)"
  using assms(2)
proof (induction l arbitrary: acc)
  case Nil
  show ?case by (simp add: pieces_skip [OF mid])
next
  case (Cons c l)
  then have "c \<noteq> NL" and "NL \<notin> set l" by auto
  with Cons.IH show ?case by (simp add: pieces_skip [OF mid])
qed

lemma pieces_line:
  assumes mid: "\<And>s. match_at r False s = None"
    and "match_at r True (l @ NL # rest) = None" and "l \<noteq> []" and "NL \<notin> set l"
  shows "pieces r True (l @ NL # rest) acc = pieces r True rest (NL # rev l @ acc)"
proof -
  from assms(3) obtain c l' where l: "l = c # l'" by (cases l) auto
  with assms(4) have c: "c \<noteq> NL" and l': "NL \<notin> set l'" by auto
  from assms(2) have "pieces r True (c # l' @ NL # rest) acc = pieces r False (l' @ NL # rest) (c # acc)"
    using c by (simp add: l pieces_skip)
  then show ?thesis by (simp add: l pieces_rest_of_line [OF mid l'])
qed
subsection \<open>Splitting a document of the expected shape\<close>

lemma unlines_simps [simp]:
  "unlines [] = []" "unlines (l # ls) = l @ NL # unlines ls"
  "unlines (ls @ ms) = unlines ls @ unlines ms"
  by (simp_all add: unlines_def)

lemma plain_hd:
  "plain l \<Longrightarrow> \<exists>c l'. l = c # l' \<and> \<not> is_space c \<and> c \<noteq> CHR ''-'' \<and> c \<noteq> CHR 0x60 \<and> NL \<notin> set l"
  by (cases l) (auto simp: plain_def)

lemma solid_append [simp]: "xs \<noteq> [] \<Longrightarrow> solid (xs @ ys) = solid xs"
  by (cases xs) simp_all

lemma solid_plain_lines: "list_all plain ls \<Longrightarrow> solid t \<Longrightarrow> solid (unlines ls @ t)"
  by (cases ls) (auto dest: plain_hd)

lemma solid_item: "wf_item it \<Longrightarrow> solid (unlines (item_lines it) @ t)"
  by (cases it) (auto dest: plain_hd)

lemma solid_items: "list_all wf_item items \<Longrightarrow> solid (unlines (concat (map item_lines items)))"
  by (cases items) (auto simp: solid_item)

lemma split_plain_line:
  assumes "plain l"
  shows "pieces split_re True (l @ NL # rest) acc = pieces split_re True rest (NL # rev l @ acc)"
proof -
  from plain_hd [OF assms] obtain c l' where l: "l = c # l'" and c: "\<not> is_space c"
    "c \<noteq> CHR ''-''" "c \<noteq> CHR 0x60" and n: "NL \<notin> set l" by blast
  have "match_at split_re True (l @ NL # rest) = None"
    using split_re_plain [OF c] by (simp add: l)
  from pieces_line [OF split_re_mid this _ n] l show ?thesis by simp
qed

lemma split_plain_lines:
  "list_all plain ls \<Longrightarrow>
     pieces split_re True (unlines ls @ rest) acc = pieces split_re True rest (rev (unlines ls) @ acc)"
  by (induction ls arbitrary: acc) (simp_all add: split_plain_line)

lemma split_fence_item:
  assumes "wf_item (Fence header body)"
  shows "pieces split_re True (unlines (item_lines (Fence header body)) @ rest) acc
           = rev acc # (header @ NL # unlines body) # pieces split_re True rest [NL]"
proof -
  from assms have h: "NL \<notin> set header" and b: "list_all plain body" by simp_all
  have "pieces split_re True (''```'' @ header @ NL # unlines body @ ''```'' @ NL # rest) acc
          = rev acc # pieces split_re False (header @ NL # unlines body @ ''```'' @ NL # rest) []"
    by (rule pieces_match [OF split_re_fence]) simp
  also have "pieces split_re False (header @ NL # unlines body @ ''```'' @ NL # rest) []
          = pieces split_re True (unlines body @ ''```'' @ NL # rest) (NL # rev header)"
    using pieces_rest_of_line [OF split_re_mid h] by simp
  also have "\<dots> = pieces split_re True (''```'' @ NL # rest) (rev (unlines body) @ NL # rev header)"
    by (rule split_plain_lines [OF b])
  also have "\<dots> = rev (rev (unlines body) @ NL # rev header) # pieces split_re False (NL # rest) []"
    by (rule pieces_match [OF split_re_fence]) simp
  also have "pieces split_re False (NL # rest) [] = pieces split_re True rest [NL]"
    using pieces_rest_of_line [OF split_re_mid, of "[]" rest "[]"] by simp
  finally show ?thesis by simp
qed

lemma split_only_fences:
  "list_all wf_item items \<Longrightarrow> list_all (\<lambda>it. item_parts it \<noteq> []) items \<Longrightarrow>
     pieces split_re True (unlines (concat (map item_lines items))) acc
       = rev acc # concat (map item_parts items)"
proof (induction items arbitrary: acc)
  case Nil
  show ?case by (simp add: pieces_end [OF split_re_nil])
next
  case (Cons it items)
  then obtain header body where it: "it = Fence header body" by (cases it) auto
  with Cons.prems have "wf_item (Fence header body)" by simp
  from split_fence_item [OF this] Cons show ?case by (simp add: it)
qed


lemma split_render:
  assumes "list_all plain fm" and "list_all wf_item items"
  shows "re_split split_re (render fm items)
           = [] # unlines fm # pieces split_re True (unlines (concat (map item_lines items))) []"
proof -
  let ?R = "unlines (concat (map item_lines items))"
  have s1: "solid (unlines fm @ ''---'' @ NL # ?R)"
    by (rule solid_plain_lines [OF assms(1)]) simp
  have "pieces split_re True (''---'' @ NL # unlines fm @ ''---'' @ NL # ?R) []
          = rev [] # pieces split_re True (unlines fm @ ''---'' @ NL # ?R) []"
    by (rule pieces_match [OF split_re_dashes [OF s1]]) simp
  also have "pieces split_re True (unlines fm @ ''---'' @ NL # ?R) []
          = pieces split_re True (''---'' @ NL # ?R) (rev (unlines fm) @ [])"
    by (rule split_plain_lines [OF assms(1)])
  also have "\<dots> = rev (rev (unlines fm) @ []) # pieces split_re True ?R []"
    by (rule pieces_match [OF split_re_dashes [OF solid_items [OF assms(2)]]]) simp
  finally show ?thesis by (simp add: re_split_def render_def)
qed
subsection \<open>Removing the front matter and the fenced blocks\<close>

lemma front_matter_re_unfold:
  "front_matter_re =
     Seq Bol (Seq (Star Space) (Seq (str ''---'') (Seq (Star Space) (Seq (Lazy Any) (closing ''---'')))))"
  by (simp add: front_matter_re_def closing_def seqs_def)

lemma fence_re_unfold:
  "fence_re = Seq Bol (Seq (Star Space) (Seq (str ''```'') (Seq (Lazy Any) (closing ''```''))))"
  by (simp add: fence_re_def closing_def seqs_def)

lemma closing_mid: "rmatch (closing m) False s k = None"
  by (simp add: closing_def seqs_def)

lemma closing_other:
  "\<not> is_space c \<Longrightarrow> c \<noteq> x \<Longrightarrow> rmatch (closing (x # m)) True (c # s) k = None"
  by (simp add: closing_def seqs_def str_def)

lemma closing_dashes:
  "solid R \<Longrightarrow>
     rmatch (closing ''---'') True (''---'' @ NL # R) (\<lambda>b s. Some (b, s)) = Some (True, R)"
  by (cases R) (auto simp add: closing_def seqs_def str_def)

lemma closing_ticks:
  "solid R \<Longrightarrow>
     rmatch (closing ''```'') True (''```'' @ NL # R) (\<lambda>b s. Some (b, s)) = Some (True, R)"
  by (cases R) (auto simp add: closing_def seqs_def str_def)

lemma greedy_solid: "solid t \<Longrightarrow> greedy Space b t k = k b t"
  by (cases t) simp_all

lemma lazy_hit: "cont b s = Some r \<Longrightarrow> lazy k b s cont = Some r"
  by (cases s) simp_all

lemma lazy_rest_of_line:
  assumes mid: "\<And>s. cont False s = None" and "NL \<notin> set l"
  shows "lazy Any False (l @ NL # rest) cont = lazy Any True rest cont"
  using assms(2)
proof (induction l)
  case Nil
  show ?case by (simp add: mid)
next
  case (Cons c l)
  then have "c \<noteq> NL" and "NL \<notin> set l" by auto
  with Cons.IH show ?case by (simp add: mid)
qed

lemma lazy_line:
  assumes mid: "\<And>s. cont False s = None"
    and "cont True (l @ NL # rest) = None" and "l \<noteq> []" and "NL \<notin> set l"
  shows "lazy Any True (l @ NL # rest) cont = lazy Any True rest cont"
proof -
  from assms(3) obtain c l' where l: "l = c # l'" by (cases l) auto
  with assms(4) have c: "c \<noteq> NL" and l': "NL \<notin> set l'" by auto
  from assms(2) have "lazy Any True (c # l' @ NL # rest) cont = lazy Any False (l' @ NL # rest) cont"
    using c by (simp add: l)
  then show ?thesis
    by (simp add: l lazy_rest_of_line [where cont = cont, OF mid l'])
qed

lemma lazy_plain_lines:
  assumes "list_all plain ls" and "x = CHR ''-'' \<or> x = CHR 0x60"
  shows "lazy Any True (unlines ls @ rest) (\<lambda>b s. rmatch (closing (x # m)) b s k)
           = lazy Any True rest (\<lambda>b s. rmatch (closing (x # m)) b s k)"
  using assms(1)
proof (induction ls)
  case Nil
  show ?case by simp
next
  case (Cons l ls)
  then have "plain l" and ls: "list_all plain ls" by simp_all
  from plain_hd [OF this(1)] obtain c l' where l: "l = c # l'" and c: "\<not> is_space c"
    "c \<noteq> CHR ''-''" "c \<noteq> CHR 0x60" and n: "NL \<notin> set l" by blast
  from c assms(2) have cx: "c \<noteq> x" by auto
  have "rmatch (closing (x # m)) True (l @ NL # unlines ls @ rest) k = None"
    using closing_other [OF c(1) cx] by (simp add: l)
  from lazy_line [where cont = "\<lambda>b s. rmatch (closing (x # m)) b s k", OF closing_mid this _ n] l
  have "lazy Any True (l @ NL # unlines ls @ rest) (\<lambda>b s. rmatch (closing (x # m)) b s k)
          = lazy Any True (unlines ls @ rest) (\<lambda>b s. rmatch (closing (x # m)) b s k)"
    by simp
  with Cons.IH [OF ls] show ?case by simp
qed

lemma front_matter_re_mid: "match_at front_matter_re False s = None"
  by (simp add: match_at_def front_matter_re_unfold)

lemma front_matter_re_nil: "match_at front_matter_re True [] = None"
  by (simp add: match_at_def front_matter_re_unfold str_def seqs_def)

lemma front_matter_re_other:
  "\<not> is_space c \<Longrightarrow> c \<noteq> CHR ''-'' \<Longrightarrow> match_at front_matter_re True (c # s) = None"
  by (simp add: match_at_def front_matter_re_unfold str_def seqs_def)

lemma fence_re_mid: "match_at fence_re False s = None"
  by (simp add: match_at_def fence_re_unfold)

lemma fence_re_nil: "match_at fence_re True [] = None"
  by (simp add: match_at_def fence_re_unfold str_def seqs_def)

lemma fence_re_other:
  "\<not> is_space c \<Longrightarrow> c \<noteq> CHR 0x60 \<Longrightarrow> match_at fence_re True (c # s) = None"
  by (simp add: match_at_def fence_re_unfold str_def seqs_def)

lemma front_matter_re_block:
  assumes "list_all plain fm" and "solid R"
  shows "match_at front_matter_re True (''---'' @ NL # unlines fm @ ''---'' @ NL # R) = Some (True, R)"
proof -
  let ?cont = "\<lambda>b s. rmatch (closing ''---'') b s (\<lambda>b s. Some (b, s))"
  let ?T = "unlines fm @ ''---'' @ NL # R"
  have T: "solid ?T" by (rule solid_plain_lines [OF assms(1)]) simp
  have "lazy Any True ?T ?cont = lazy Any True (''---'' @ NL # R) ?cont"
    by (rule lazy_plain_lines [OF assms(1)]) simp
  also have "\<dots> = Some (True, R)"
    by (rule lazy_hit) (rule closing_dashes [OF assms(2)])
  finally have l: "lazy Any True ?T ?cont = Some (True, R)" .
  have "match_at front_matter_re True (''---'' @ NL # ?T)
          = greedy Space False (NL # ?T) (\<lambda>b s. lazy Any b s ?cont)"
    by (simp add: match_at_def front_matter_re_unfold str_def seqs_def greedy_solid
        del: greedy.simps)
  also have "\<dots> = Some (True, R)"
    by (subst greedy_space_NL [OF T]) (simp only: l option.simps)
  finally show ?thesis .
qed

lemma fence_re_block:
  assumes "wf_item (Fence header body)" and "solid R"
  shows "match_at fence_re True (unlines (item_lines (Fence header body)) @ R) = Some (True, R)"
proof -
  let ?cont = "\<lambda>b s. rmatch (closing ''```'') b s (\<lambda>b s. Some (b, s))"
  from assms(1) have h: "NL \<notin> set header" and b: "list_all plain body" by simp_all
  have "lazy Any False (header @ NL # unlines body @ ''```'' @ NL # R) ?cont
          = lazy Any True (unlines body @ ''```'' @ NL # R) ?cont"
    by (rule lazy_rest_of_line [where cont = ?cont, OF closing_mid h])
  also have "\<dots> = lazy Any True (''```'' @ NL # R) ?cont"
    by (rule lazy_plain_lines [OF b]) simp
  also have "\<dots> = Some (True, R)"
    by (rule lazy_hit) (rule closing_ticks [OF assms(2)])
  finally have l: "lazy Any False (header @ NL # unlines body @ ''```'' @ NL # R) ?cont
                     = Some (True, R)" .
  have "match_at fence_re True (''```'' @ header @ NL # unlines body @ ''```'' @ NL # R)
          = lazy Any False (header @ NL # unlines body @ ''```'' @ NL # R) ?cont"
    by (simp add: match_at_def fence_re_unfold str_def seqs_def greedy_solid
        del: greedy.simps lazy.simps)
  with l show ?thesis by simp
qed
lemma front_matter_re_none_left:
  assumes "list_all wf_item items"
  shows "pieces front_matter_re True (unlines (concat (map item_lines items)) @ rest0) acc
           = pieces front_matter_re True rest0 (rev (unlines (concat (map item_lines items))) @ acc)"
proof -
  have line: "pieces front_matter_re True (l @ NL # rest) acc
                = pieces front_matter_re True rest (NL # rev l @ acc)"
    if "l \<noteq> []" "NL \<notin> set l" "\<not> is_space (hd l)" "hd l \<noteq> CHR ''-''" for l rest acc
  proof -
    from that obtain c l' where l: "l = c # l'" by (cases l) auto
    with that have "match_at front_matter_re True (l @ NL # rest) = None"
      by (simp add: front_matter_re_other)
    from pieces_line [OF front_matter_re_mid this that(1,2)] show ?thesis .
  qed
  have lines: "pieces front_matter_re True (unlines ls @ rest) acc
                 = pieces front_matter_re True rest (rev (unlines ls) @ acc)"
    if "list_all (\<lambda>l. l \<noteq> [] \<and> NL \<notin> set l \<and> \<not> is_space (hd l) \<and> hd l \<noteq> CHR ''-'') ls"
    for ls rest acc
    using that by (induction ls arbitrary: acc) (simp_all add: line)
  have ok: "list_all (\<lambda>l. l \<noteq> [] \<and> NL \<notin> set l \<and> \<not> is_space (hd l) \<and> hd l \<noteq> CHR ''-'')
              (item_lines it)" if "wf_item it" for it
    using that by (cases it) (auto simp: plain_def list_all_iff)
  from assms have "list_all (\<lambda>l. l \<noteq> [] \<and> NL \<notin> set l \<and> \<not> is_space (hd l) \<and> hd l \<noteq> CHR ''-'')
                     (concat (map item_lines items))"
    by (induction items) (simp_all add: ok)
  from lines [OF this] show ?thesis .
qed

lemma sub_front_matter:
  assumes "list_all plain fm" and "list_all wf_item items"
  shows "re_sub_empty front_matter_re (render fm items) = unlines (concat (map item_lines items))"
proof -
  let ?R = "unlines (concat (map item_lines items))"
  have "pieces front_matter_re True (''---'' @ NL # unlines fm @ ''---'' @ NL # ?R) []
          = rev [] # pieces front_matter_re True ?R []"
    by (rule pieces_match [OF front_matter_re_block [OF assms(1) solid_items [OF assms(2)]]]) simp
  moreover have "pieces front_matter_re True ?R [] = [?R]"
    using front_matter_re_none_left [OF assms(2), of "[]" "[]"]
    by (simp add: pieces_end [OF front_matter_re_nil])
  ultimately show ?thesis by (simp add: re_sub_empty_def render_def)
qed

lemma sub_fences:
  "list_all wf_item items \<Longrightarrow>
     concat (pieces fence_re True (unlines (concat (map item_lines items))) acc)
       = rev acc @ concat (map item_prose items)"
proof (induction items arbitrary: acc)
  case Nil
  show ?case by (simp add: pieces_end [OF fence_re_nil])
next
  case (Cons it items)
  then have wf: "wf_item it" and r: "list_all wf_item items" by simp_all
  let ?R = "unlines (concat (map item_lines items))"
  show ?case
  proof (cases it)
    case (Fence header body)
    with wf have w: "wf_item (Fence header body)" by simp
    have "pieces fence_re True (unlines (item_lines (Fence header body)) @ ?R) acc
            = rev acc # pieces fence_re True ?R []"
      by (rule pieces_match [OF fence_re_block [OF w solid_items [OF r]]]) simp
    with Cons.IH [OF r, of "[]"] show ?thesis by (simp add: Fence)
  next
    case (Para l)
    with wf have "plain l" by simp
    from plain_hd [OF this] obtain c l' where l: "l = c # l'" and c: "\<not> is_space c"
      "c \<noteq> CHR 0x60" and n: "NL \<notin> set l" by blast
    have "match_at fence_re True (l @ NL # ?R) = None"
      using fence_re_other [OF c] by (simp add: l)
    from pieces_line [OF fence_re_mid this _ n] l
    have "pieces fence_re True (l @ NL # ?R) acc = pieces fence_re True ?R (NL # rev l @ acc)"
      by simp
    with Cons.IH [OF r, of "NL # rev l @ acc"] show ?thesis by (simp add: Para)
  qed
qed

lemma prose_check_render:
  assumes "list_all plain fm" and "list_all wf_item items"
  shows "prose_check (render fm items) = concat (map item_prose items)"
proof -
  have "prose_check (render fm items)
          = re_sub_empty fence_re (unlines (concat (map item_lines items)))"
    by (simp only: prose_check_def sub_front_matter [OF assms])
  also have "\<dots> = concat (map item_prose items)"
    using sub_fences [OF assms(2), of "[]"] by (simp add: re_sub_empty_def)
  finally show ?thesis .
qed

subsection \<open>Stripping\<close>

lemma strip_empty_iff: "strip s = [] \<longleftrightarrow> (\<forall>c \<in> set s. is_space c)"
proof
  assume "strip s = []"
  then have "dropWhile is_space (rev (dropWhile is_space s)) = []" by (simp add: strip_def)
  then have "\<forall>c \<in> set (dropWhile is_space s). is_space c" by (simp add: dropWhile_eq_Nil_conv)
  moreover have "set s = set (takeWhile is_space s) \<union> set (dropWhile is_space s)"
    by (metis set_append takeWhile_dropWhile_id)
  ultimately show "\<forall>c \<in> set s. is_space c" by (auto dest: set_takeWhileD)
next
  assume "\<forall>c \<in> set s. is_space c"
  then have "dropWhile is_space s = []" by (induction s) simp_all
  then show "strip s = []" unfolding strip_def by (simp only: rev.simps dropWhile.simps)
qed

lemma strip_keeps_prefix:
  assumes "p \<noteq> []" and "\<not> is_space (hd p)" and "\<not> is_space (last p)"
  shows "strip (p @ t) = p @ rstrip t"
proof -
  from assms(1,2) have "dropWhile is_space (p @ t) = p @ t" by (cases p) simp_all
  moreover have "dropWhile is_space (rev t @ rev p) = dropWhile is_space (rev t) @ rev p"
  proof (cases "\<forall>c \<in> set (rev t). is_space c")
    case True
    from assms(1,3) have "dropWhile is_space (rev p) = rev p"
      by (cases p rule: rev_cases) simp_all
    with True show ?thesis by (simp add: dropWhile_append dropWhile_eq_Nil_conv)
  next
    case False
    then show ?thesis by (auto simp add: dropWhile_append)
  qed
  ultimately show ?thesis by (simp add: strip_def rstrip_def)
qed

lemma rstrip_NL: "rstrip (NL # t) = [] \<or> (\<exists>u. rstrip (NL # t) = NL # u)"
proof -
  have "\<exists>v. NL # t = rstrip (NL # t) @ v"
    unfolding rstrip_def
    by (metis rev_append rev_rev_ident takeWhile_dropWhile_id)
  then obtain v where v: "NL # t = rstrip (NL # t) @ v" ..
  show ?thesis
  proof (cases "rstrip (NL # t)")
    case Nil
    then show ?thesis by simp
  next
    case (Cons a u)
    with v have "a = NL" by simp
    with Cons show ?thesis by simp
  qed
qed

subsection \<open>The name of a block\<close>

lemma word_not_space: "is_word c \<Longrightarrow> \<not> is_space c"
  by (auto simp: is_word_def is_space_def Let_def)

lemma NL_not_word [simp]: "\<not> is_word NL"
  by (simp add: is_word_def NL_def)

lemma greedy_word_final:
  "greedy Word b s (\<lambda>b s. Some (b, s)) = Some (b', s') \<Longrightarrow> \<exists>w. s = w @ s' \<and> list_all is_word w"
proof (induction s arbitrary: b)
  case Nil
  then show ?case by simp
next
  case (Cons c cs)
  show ?case
  proof (cases "is_word c")
    case False
    with Cons.prems show ?thesis by simp
  next
    case True
    show ?thesis
    proof (cases "greedy Word (c = NL) cs (\<lambda>b s. Some (b, s))")
      case None
      with True Cons.prems show ?thesis by simp
    next
      case (Some r)
      with True Cons.prems have "greedy Word (c = NL) cs (\<lambda>b s. Some (b, s)) = Some (b', s')"
        by simp
      from Cons.IH [OF this] obtain w where "cs = w @ s'" "list_all is_word w" by blast
      with True have "c # cs = (c # w) @ s' \<and> list_all is_word (c # w)" by simp
      then show ?thesis by blast
    qed
  qed
qed

lemma take_match: "s = p @ s' \<Longrightarrow> take (length s - length s') s = p"
  by simp

lemma name_re_match:
  assumes "match_at name_re b s = Some (b', s')"
  shows "\<exists>w. s = ''name='' @ w @ s' \<and> word_name w"
proof -
  from assms obtain c t where s: "s = ''name='' @ c # t" and c: "is_word c"
    and g: "greedy Word (c = NL) t (\<lambda>b s. Some (b, s)) = Some (b', s')"
    by (auto simp add: match_at_def name_re_def seqs_def str_def split: list.splits if_splits)
  from greedy_word_final [OF g] obtain w where "t = w @ s'" "list_all is_word w" by blast
  with s c have "s = ''name='' @ (c # w) @ s' \<and> word_name (c # w)"
    by (simp add: word_name_def)
  then show ?thesis by blast
qed

lemma re_search_name:
  "re_search name_re b s = Some m \<Longrightarrow> word_name (group1 m)"
proof (induction s arbitrary: b)
  case Nil
  then show ?case by (simp add: match_at_def name_re_def seqs_def str_def)
next
  case (Cons c cs)
  show ?case
  proof (cases "match_at name_re b (c # cs)")
    case None
    with Cons show ?thesis by simp
  next
    case (Some r)
    obtain b' s' where r: "r = (b', s')" by (cases r)
    from name_re_match [OF Some [unfolded r]] obtain w
      where w: "c # cs = ''name='' @ w @ s'" "word_name w" by blast
    from Cons.prems Some r have "m = take (length (c # cs) - length s') (c # cs)" by simp
    also have "\<dots> = ''name='' @ w" by (rule take_match) (simp add: w(1))
    finally show ?thesis using w(2) by (simp add: group1_def)
  qed
qed

lemma greedy_word_all:
  "list_all is_word w \<Longrightarrow> x = [] \<or> \<not> is_word (hd x) \<Longrightarrow>
     \<exists>b'. greedy Word b (w @ x) (\<lambda>b s. Some (b, s)) = Some (b', x)"
proof (induction w arbitrary: b)
  case Nil
  then show ?case by (cases x) auto
next
  case (Cons c w)
  then have "is_word c" and "list_all is_word w" by simp_all
  from Cons.IH [OF this(2) Cons.prems(2), of "c = NL"] this(1) show ?case by auto
qed

lemma name_re_hit:
  assumes "word_name n" and "x = [] \<or> \<not> is_word (hd x)"
  shows "\<exists>b'. match_at name_re b (''name='' @ n @ x) = Some (b', x)"
proof -
  from assms(1) obtain c w where n: "n = c # w" and c: "is_word c" and w: "list_all is_word w"
    by (cases n) (auto simp: word_name_def)
  from greedy_word_all [OF w assms(2), of "c = NL"] c show ?thesis
    by (simp add: match_at_def name_re_def seqs_def str_def n)
qed

lemma name_re_miss: "c \<noteq> CHR ''n'' \<Longrightarrow> match_at name_re b (c # s) = None"
  by (simp add: match_at_def name_re_def seqs_def str_def)

lemma search_bash_header:
  assumes "word_name n" and "x = [] \<or> \<not> is_word (hd x)"
  shows "re_search name_re b (''bash name='' @ n @ x) = Some (''name='' @ n)"
proof -
  from name_re_hit [OF assms, of False] obtain b'
    where "match_at name_re False (''name='' @ n @ x) = Some (b', x)" by blast
  moreover have "take (length (''name='' @ n @ x) - length x) (''name='' @ n @ x) = ''name='' @ n"
    by (rule take_match) simp
  ultimately have "re_search name_re False (''name='' @ n @ x) = Some (''name='' @ n)"
    by (simp del: take_append)
  then show ?thesis by (simp add: name_re_miss NL_def)
qed
subsection \<open>Walking the parts\<close>





lemma strip_NL [simp]: "strip [NL] = []"
  by (simp add: strip_def)

lemma strip_Nil [simp]: "strip [] = []"
  by (simp add: strip_def)

lemma not_startswith_Nil [simp]: "\<not> startswith [] ''yaml''" "\<not> startswith [] ''bash''"
  by (simp_all add: startswith_def)

lemma walk_done: "\<not> i < length parts \<Longrightarrow> walk parts i seen bs = Inr (seen, bs)"
  by (subst walk.simps) simp

lemma walk_blank:
  "i < length parts \<Longrightarrow> strip (parts ! i) = [] \<Longrightarrow>
     walk parts i seen bs = walk parts (i + 1) seen bs"
  by (subst walk.simps) simp

lemma bash_header:
  assumes "word_name n"
  shows "\<exists>x. strip ((''bash name='' @ n) @ NL # t) = ''bash name='' @ n @ x
             \<and> (x = [] \<or> \<not> is_word (hd x))"
proof -
  from assms have n: "n \<noteq> []" and l: "is_word (last n)"
    by (auto simp: word_name_def list_all_iff)
  have "strip ((''bash name='' @ n) @ NL # t) = (''bash name='' @ n) @ rstrip (NL # t)"
    by (rule strip_keeps_prefix) (use n l in \<open>auto simp: is_space_def dest: word_not_space\<close>)
  with rstrip_NL [of t] show ?thesis by auto
qed

lemma walk_bash:
  assumes "i + 1 < length parts" and "parts ! i = (''bash name='' @ n) @ NL # t"
    and "word_name n"
  shows "walk parts i seen bs =
           (if n \<in> seen then Inl (DuplicateBlockName n)
            else walk parts (i + 2) (insert n seen) (bs @ [strip (parts ! (i + 1))]))"
proof -
  from bash_header [OF assms(3), of t] obtain x
    where x: "strip (parts ! i) = ''bash name='' @ n @ x" "x = [] \<or> \<not> is_word (hd x)"
    by (auto simp: assms(2))
  have s: "re_search name_re True (strip (parts ! i)) = Some (''name='' @ n)"
    unfolding x(1) by (rule search_bash_header [OF assms(3) x(2)])
  have y: "\<not> startswith (strip (parts ! i)) ''yaml''" "startswith (strip (parts ! i)) ''bash''"
    by (simp_all add: x(1) startswith_def)
  from assms(1) have i: "i < length parts" "\<not> length parts \<le> i + 1" by simp_all
  show ?thesis
    by (subst walk.simps) (simp only: i y s Let_def if_True if_False option.simps group1_def,
        simp)
qed


lemma walk_bash_items:
  assumes "list_all wf_block blocks" and "distinct (map fst blocks)"
    and "set (map fst blocks) \<inter> seen = {}"
  shows "walk (pre @ concat (map item_parts (bash_items blocks)) @ post) (length pre) seen bs
           = walk (pre @ concat (map item_parts (bash_items blocks)) @ post)
               (length pre + 2 * length blocks) (seen \<union> set (map fst blocks))
               (bs @ replicate (length blocks) [])"
  using assms
proof (induction blocks arbitrary: pre seen bs)
  case Nil
  show ?case by (simp add: bash_items_def)
next
  case (Cons blk blocks)
  obtain n b where blk: "blk = (n, b)" by (cases blk)
  let ?hb = "(''bash name='' @ n) @ NL # unlines b"
  let ?tail = "concat (map item_parts (bash_items blocks)) @ post"
  let ?parts = "(pre @ [?hb, [NL]]) @ ?tail"
  have parts: "pre @ concat (map item_parts (bash_items (blk # blocks))) @ post = ?parts"
    by (simp add: bash_items_def bash_def blk)
  from Cons.prems have wb: "wf_block blk" and r1: "list_all wf_block blocks" by simp_all
  from wb blk have n1: "word_name n" by (simp add: wf_block_def)
  from Cons.prems blk have n2: "n \<notin> seen" and r2: "distinct (map fst blocks)"
    "set (map fst blocks) \<inter> insert n seen = {}"
    by auto
  note n = n1 n2 and r = r1 r2
  have "walk ?parts (length pre) seen bs
          = walk ?parts (length pre + 2) (insert n seen) (bs @ [strip (?parts ! (length pre + 1))])"
    using walk_bash [of "length pre" ?parts n "unlines b" seen bs] n
    by (simp add: nth_append)
  also have "strip (?parts ! (length pre + 1)) = []" by (simp add: nth_append)
  also have "walk ?parts (length pre + 2) (insert n seen) (bs @ [[]])
          = walk ?parts (length (pre @ [?hb, [NL]]) + 2 * length blocks)
              (insert n seen \<union> set (map fst blocks)) ((bs @ [[]]) @ replicate (length blocks) [])"
    using Cons.IH [OF r, of "pre @ [?hb, [NL]]" "bs @ [[]]"] by simp
  finally show ?case
    unfolding parts by (simp add: blk replicate_app_Cons_same)
qed

subsection \<open>Parsing a document of the expected shape\<close>

lemma item_parts_fence: "is_fence it \<Longrightarrow> item_parts it \<noteq> [] \<and> item_prose it = []"
  by (cases it) simp_all

lemma fences_no_prose: "list_all is_fence items \<Longrightarrow> concat (map item_prose items) = []"
  by (induction items) (simp_all add: item_parts_fence)

lemma fences_have_parts: "list_all is_fence items \<Longrightarrow> list_all (\<lambda>it. item_parts it \<noteq> []) items"
  by (induction items) (simp_all add: item_parts_fence)

lemma bash_items_fences: "list_all is_fence (bash_items blocks)"
  by (induction blocks) (simp_all add: bash_items_def bash_def)

lemma wf_item_bash:
  assumes "wf_block blk"
  shows "wf_item (bash (fst blk) (snd blk))"
proof -
  from assms have w: "list_all is_word (fst blk)" and b: "list_all plain (snd blk)"
    by (simp_all add: wf_block_def word_name_def)
  from w have "NL \<notin> set (fst blk)" by (auto simp: list_all_iff)
  moreover have "NL \<notin> set ''bash name=''" by (simp add: NL_def)
  moreover have "\<not> is_space (CHR ''b'')" by (simp add: is_space_def)
  ultimately show ?thesis using b by (simp add: bash_def)
qed

lemma bash_items_wf: "list_all wf_block blocks \<Longrightarrow> list_all wf_item (bash_items blocks)"
  by (induction blocks) (simp_all add: bash_items_def wf_item_bash)

lemma front_matter_not_blank:
  assumes "list_all plain fm" and "fm \<noteq> []"
  shows "strip (unlines fm) \<noteq> []"
proof -
  from assms obtain l ls where "fm = l # ls" "plain l" by (cases fm) auto
  with plain_hd [of l] obtain c l' where "unlines fm = c # l' @ NL # unlines ls" "\<not> is_space c"
    by auto
  then show ?thesis by (auto simp: strip_empty_iff)
qed

lemma parts_render_fences:
  assumes "list_all plain fm" and "list_all wf_item items" and "list_all is_fence items"
  shows "re_split split_re (render fm items)
           = [[], unlines fm, []] @ concat (map item_parts items)"
  using split_only_fences [OF assms(2) fences_have_parts [OF assms(3)], of "[]"]
  by (simp add: split_render [OF assms(1,2)])

lemma parse_fences:
  assumes "list_all plain fm" and "fm \<noteq> []"
    and "list_all wf_item items" and "list_all is_fence items"
    and "yaml (unlines fm) = Inr front_matter"
  shows "parse_markdown_locals yaml (render fm items) =
     (case walk ([[], unlines fm, []] @ concat (map item_parts items)) 3 {} [] of
        Inl err \<Rightarrow> Inl err
      | Inr (block_names, bash_blocks) \<Rightarrow>
          if bash_blocks = [] then Inl NoExecutableBlocks
          else Inr (front_matter, block_names, bash_blocks))"
proof -
  let ?parts = "[[], unlines fm, []] @ concat (map item_parts items)"
  have p: "re_split split_re (render fm items) = ?parts"
    by (rule parts_render_fences [OF assms(1,3,4)])
  have l: "\<not> length ?parts < 3" by simp
  have f: "strip (?parts ! 1) \<noteq> []"
    using front_matter_not_blank [OF assms(1,2)] by simp
  have c: "strip (prose_check (render fm items)) = []"
    by (simp add: prose_check_render [OF assms(1,3)] fences_no_prose [OF assms(4)])
  have y: "yaml (?parts ! 1) = Inr front_matter"
    using assms(5) by simp
  have w: "walk ?parts 2 {} [] = walk ?parts 3 {} []"
    using walk_blank [of 2 ?parts "{}" "[]"] by simp
  show ?thesis
    unfolding parse_markdown_locals_def p Let_def
    by (simp only: l f c y w if_False simp_thms sum.case)
qed

subsection \<open>What the parser returns for the bodies\<close>

lemma demo_premises:
  "list_all plain demo_fm" "demo_fm \<noteq> []"
  "list_all wf_block demo_blocks" "demo_blocks \<noteq> []" "distinct (map fst demo_blocks)"
  "list_all wf_block duplicate_blocks" "\<not> distinct (map fst duplicate_blocks)"
  by code_simp+

lemma walk_distinct_blocks:
  assumes "list_all wf_block blocks" and "distinct (map fst blocks)"
  shows "walk ([[], fm_text, []] @ concat (map item_parts (bash_items blocks))) 3 {} []
           = Inr (set (map fst blocks), replicate (length blocks) [])"
proof -
  let ?parts = "[[], fm_text, []] @ concat (map item_parts (bash_items blocks)) @ []"
  have l: "length (concat (map item_parts (bash_items blocks))) = 2 * length blocks"
    by (induction blocks) (simp_all add: bash_items_def bash_def)
  have "walk ?parts (length [[], fm_text, []]) {} []
          = walk ?parts (length [[], fm_text, []] + 2 * length blocks)
              ({} \<union> set (map fst blocks)) ([] @ replicate (length blocks) [])"
    by (rule walk_bash_items [OF assms]) simp
  also have "\<dots> = Inr ({} \<union> set (map fst blocks), [] @ replicate (length blocks) [])"
    by (rule walk_done) (simp add: l)
  finally show ?thesis by (simp add: numeral_3_eq_3)
qed

text \<open>
  C1. For a document made of a front-matter block of plain lines that \<open>yaml.safe_load\<close>
  accepts and of one or more bash fences with distinct names and plain body lines,
  \<open>parse_markdown\<close> succeeds and returns the loaded front matter and a list with one
  entry per fence; but every entry is the empty string, not the trimmed body of the
  fence: \<open>re.split\<close> leaves the header line and the body of a fence in one part, and the
  loop takes the part after it, the text between this fence and the next, as the body.
\<close>

theorem bash_bodies_lost:
  assumes "list_all plain fm" and "fm \<noteq> []"
    and "list_all wf_block blocks" and "blocks \<noteq> []" and "distinct (map fst blocks)"
    and "yaml (unlines fm) = Inr front_matter"
  shows "parse_markdown_text yaml (render fm (bash_items blocks))
           = Inr (front_matter, replicate (length blocks) [])"
proof -
  from assms(4) have n: "replicate (length blocks) ([]::string) \<noteq> []" by simp
  have "parse_markdown_locals yaml (render fm (bash_items blocks)) =
     (case walk ([[], unlines fm, []] @ concat (map item_parts (bash_items blocks))) 3 {} [] of
        Inl err \<Rightarrow> Inl err
      | Inr (block_names, bash_blocks) \<Rightarrow>
          if bash_blocks = [] then Inl NoExecutableBlocks
          else Inr (front_matter, block_names, bash_blocks))"
    by (rule parse_fences [where yaml = yaml, OF assms(1,2) bash_items_wf [OF assms(3)]
          bash_items_fences assms(6)])
  then show ?thesis
    unfolding parse_markdown_text_def walk_distinct_blocks [OF assms(3,5)]
    using n by simp
qed

theorem bash_bodies_lost_witness:
  "render demo_fm (bash_items demo_blocks) = demo_text
   \<and> parse_markdown_text Inr demo_text = Inr (unlines demo_fm, ['''', ''''])"
proof -
  have r: "render demo_fm (bash_items demo_blocks) = demo_text" by code_simp
  have y: "Inr (unlines demo_fm) = (Inr (unlines demo_fm) :: string + string)" by simp
  have n: "replicate (length demo_blocks) ([]::string) = ['''', '''']" by code_simp
  from bash_bodies_lost [where yaml = Inr, OF demo_premises(1-5) y] show ?thesis
    unfolding r n using r by simp
qed

subsection \<open>Text without front matter\<close>

lemma fences_only_parts:
  "re_split split_re fences_only_text
     = [[], ''bash name=first\<newline>echo a\<newline>'', ''\<newline>'',
        ''bash name=second\<newline>echo b\<newline>'', ''\<newline>'']"
  by code_simp

lemma fences_only_prose: "prose_check fences_only_text = []"
  by code_simp

lemma fences_only_walk:
  "walk [[], ''bash name=first\<newline>echo a\<newline>'', ''\<newline>'',
         ''bash name=second\<newline>echo b\<newline>'', ''\<newline>''] 2 {} []
     = Inr ({''second''}, [''''])"
  by code_simp

text \<open>
  C6. A text that has no front-matter block at all, only two bash fences, is not rejected
  as lacking front matter: the split counts the fence markers as delimiters, so the text
  of the first fence is handed to \<open>yaml.safe_load\<close> as front matter, and when that loads
  (a plain scalar, for this text) the parse succeeds with the second fence as only block.
\<close>

theorem fences_only_accepted:
  "parse_markdown_text yaml fences_only_text =
     (case yaml ''bash name=first\<newline>echo a\<newline>'' of
        Inl e \<Rightarrow> Inl (YamlParseError e)
      | Inr front_matter \<Rightarrow> Inr (front_matter, ['''']))"
  unfolding parse_markdown_text_def parse_markdown_locals_def fences_only_parts
    fences_only_prose Let_def
  by (simp add: fences_only_walk strip_def is_space_def split: sum.splits)

subsection \<open>Duplicate names\<close>






subsection \<open>The names that are extracted\<close>

lemma walk_names:
  "walk parts i seen bs = Inr (names, blocks) \<Longrightarrow> \<forall>n \<in> seen. word_name n \<Longrightarrow>
     \<forall>n \<in> names. word_name n"
proof (induction parts i seen bs rule: walk.induct)
  case (1 parts i seen bs)
  show ?case
  proof (cases "i < length parts")
    case False
    with "1.prems" show ?thesis by (simp add: walk_done)
  next
    case True
    note i = True
    show ?thesis
    proof (cases "startswith (strip (parts ! i)) ''yaml''")
      case True
      with i "1.prems"(1) have "walk parts (i + 2) seen bs = Inr (names, blocks)"
        by (subst (asm) walk.simps) (simp only: if_True)
      from "1.IH"(1) [OF i True this "1.prems"(2)] show ?thesis .
    next
      case False
      note y = False
      show ?thesis
      proof (cases "startswith (strip (parts ! i)) ''bash''")
        case True
        note b = True
        from i y b "1.prems"(1) have w: "(if length parts \<le> i + 1 then Inl IncompleteBashBlock
             else case re_search name_re True (strip (parts ! i)) of
               None \<Rightarrow> Inl MissingBlockName
             | Some name_match \<Rightarrow>
                 if group1 name_match \<in> seen then Inl (DuplicateBlockName (group1 name_match))
                 else walk parts (i + 2) (insert (group1 name_match) seen)
                        (bs @ [strip (parts ! (i + 1))])) = Inr (names, blocks)"
          by (subst (asm) walk.simps) (simp only: if_True if_False Let_def)
        then have l: "\<not> length parts \<le> i + 1" by (auto split: if_splits)
        with w obtain m where m: "re_search name_re True (strip (parts ! i)) = Some m"
          by (cases "re_search name_re True (strip (parts ! i))") auto
        with w l have n: "group1 m \<notin> seen"
          and r: "walk parts (i + 2) (insert (group1 m) seen) (bs @ [strip (parts ! (i + 1))])
                    = Inr (names, blocks)"
          by (auto split: if_splits)
        from re_search_name [OF m] "1.prems"(2)
        have s: "\<forall>n \<in> insert (group1 m) seen. word_name n" by simp
        from "1.IH"(2) [OF i y b refl l refl m refl n r s] show ?thesis .
      next
        case False
        with i y "1.prems"(1) have e: "strip (parts ! i) = []"
          and r: "walk parts (i + 1) seen bs = Inr (names, blocks)"
          by (subst (asm) walk.simps, simp only: if_True if_False split: if_splits, simp)+
        from "1.IH"(3) [OF i y False _ r "1.prems"(2)] e show ?thesis by simp
      qed
    qed
  qed
qed

text \<open>
  C9, as amended. For every text the parser accepts, every name in \<open>block_names\<close> is a
  non-empty string of word characters in the sense of \<open>\w\<close> on \<open>str\<close>: letters and
  digits of any script, or the underscore (for the code points below 256, the class
  \<open>is_word\<close>), not only the ASCII ones.
\<close>

theorem block_names_are_words:
  assumes "parse_markdown_locals yaml content = Inr (front_matter, block_names, bash_blocks)"
    and "n \<in> block_names"
  shows "n \<noteq> [] \<and> list_all is_word n"
proof -
  from assms(1) have "walk (re_split split_re content) 2 {} [] = Inr (block_names, bash_blocks)"
    unfolding parse_markdown_locals_def Let_def
    by (simp split: if_splits sum.splits prod.splits)
  from walk_names [OF this] assms(2) show ?thesis by (simp add: word_name_def)
qed

theorem block_names_are_words_witness:
  "parse_markdown_locals Inr demo_text
     = Inr (unlines demo_fm, {''first'', ''second''}, ['''', ''''])
   \<and> ''second'' \<noteq> [] \<and> list_all is_word ''second''"
proof -
  have p: "parse_markdown_locals Inr demo_text
             = Inr (unlines demo_fm, {''first'', ''second''}, ['''', ''''])"
    by code_simp
  have m: "''second'' \<in> {''first'', ''second''}" by simp
  from block_names_are_words [where yaml = Inr, OF p m] p show ?thesis by blast
qed

theorem block_names_ascii_counterexample:
  "parse_markdown_locals Inr accent_text = Inr (''slash: foo\<newline>'', {[CHR 0xE9]}, [''''])
   \<and> \<not> is_ascii_word (CHR 0xE9)"
  by code_simp

subsection \<open>Stray content\<close>






end
